theory Spec2Isabelle
  imports Main "HOL-Library.Multiset"
begin

section \<open>Data model (src/types/game.ts)\<close>

text \<open>
  The interfaces of \<^verbatim>\<open>game.ts\<close> as records. The three interfaces \<^verbatim>\<open>Category\<close>,
  \<^verbatim>\<open>Puzzle\<close> and \<^verbatim>\<open>GridSquare\<close> each have a field \<^verbatim>\<open>id\<close>; the fields are named
  \<open>cat_id\<close>, \<open>puzzle_id\<close> and \<open>sq_id\<close> here (and \<open>cat_items\<close>, \<open>cat_name\<close> for the
  category). A JavaScript string is a \<open>string\<close>, a number that counts is a \<open>nat\<close>, an
  optional field is an \<open>option\<close>.
\<close>

record Category =
  cat_id :: string
  cat_name :: string
  cat_items :: "string list"
  difficulty :: nat

record Puzzle =
  puzzle_id :: string
  month :: string
  categories :: "Category list"

record GridSquare =
  sq_id :: string
  items :: "string list"
  categoryId :: string
  isSolved :: bool

datatype Status = Playing | Won

record GameState =
  puzzleId :: string
  grid :: "GridSquare list"
  mistakes :: nat
  solvedCategoryIds :: "string list"
  status :: Status
  startTime :: nat
  endTime :: "nat option"

datatype FailureReason = DifferentCategories

datatype MergeResult =
    MergeSuccess GridSquare "Category option"
  | MergeFailure FailureReason

fun success :: "MergeResult \<Rightarrow> bool" where
  "success (MergeSuccess mergedSquare solvedCategory) = True"
| "success (MergeFailure reason) = False"

text \<open>
  The four \<^verbatim>\<open>useState\<close> cells of the hook \<^verbatim>\<open>useGameState\<close>. An action of the hook runs
  to completion on this state and returns the next one: the actions are called one after
  the other, each on the state that the one before has left (so the state that the
  callbacks close over and the \<^verbatim>\<open>prev\<close> that the state updaters receive are the same).
\<close>

record HookState =
  gameState :: GameState
  selectedSquareIds :: "string list"
  lastMergeResult :: "MergeResult option"
  shakingSquareIds :: "string list"

section \<open>Initialization (src/hooks/useGameState.ts, src/data/samplePuzzle.ts)\<close>

text \<open>
  The template literal \<^verbatim>\<open>`${category.id}-${index}`\<close> renders the index, a non-negative
  integer, in decimal.
\<close>

definition digit_char :: "nat \<Rightarrow> char" where
  "digit_char d = ''0123456789'' ! d"

fun string_of_index :: "nat \<Rightarrow> string" where
  "string_of_index n =
     (if n < 10 then [digit_char n]
      else string_of_index (n div 10) @ [digit_char (n mod 10)])"

declare string_of_index.simps [simp del]

definition square_id :: "string \<Rightarrow> nat \<Rightarrow> string" where
  "square_id cid index = cid @ ''-'' @ string_of_index index"

text \<open>
  \<^verbatim>\<open>shuffleArray\<close>: the Fisher-Yates loop on a copy of the array, \<open>i\<close> from the last index
  down to 1. \<^verbatim>\<open>Math.floor(Math.random() * (i + 1))\<close> is an integer between 0 and \<open>i\<close>;
  the random source is the parameter \<open>rnd\<close>, which gives the draw made at index \<open>i\<close>,
  reduced modulo \<open>i + 1\<close> so that every value of the parameter is a draw the code can make.
  The destructuring swap reads both elements before it writes.
\<close>

fun shuffle_loop :: "(nat \<Rightarrow> nat) \<Rightarrow> nat \<Rightarrow> 'a list \<Rightarrow> 'a list" where
  "shuffle_loop rnd 0 shuffled = shuffled"
| "shuffle_loop rnd (Suc i) shuffled =
     (let j = rnd (Suc i) mod (Suc i + 1)
      in shuffle_loop rnd i (shuffled[Suc i := shuffled ! j, j := shuffled ! Suc i]))"

definition shuffleArray :: "(nat \<Rightarrow> nat) \<Rightarrow> 'a list \<Rightarrow> 'a list" where
  "shuffleArray rnd array = shuffle_loop rnd (length array - 1) array"

text \<open>
  \<^verbatim>\<open>initializeGrid\<close>: the two nested \<^verbatim>\<open>forEach\<close> loops push one square per item, in the
  order of the categories and of the items; \<open>unshuffled_squares\<close> is the array \<^verbatim>\<open>squares\<close>
  when the loops end.
\<close>

definition category_squares :: "Category \<Rightarrow> GridSquare list" where
  "category_squares category =
     map (\<lambda>(index, item).
            \<lparr>sq_id = square_id (cat_id category) index, items = [item],
             categoryId = cat_id category, isSolved = False\<rparr>)
         (enumerate 0 (cat_items category))"

definition unshuffled_squares :: "Puzzle \<Rightarrow> GridSquare list" where
  "unshuffled_squares puzzle = concat (map category_squares (categories puzzle))"

definition initializeGrid :: "(nat \<Rightarrow> nat) \<Rightarrow> Puzzle \<Rightarrow> GridSquare list" where
  "initializeGrid rnd puzzle = shuffleArray rnd (unshuffled_squares puzzle)"

text \<open>\<^verbatim>\<open>initializeGameState\<close>; \<open>now\<close> is what \<^verbatim>\<open>Date.now()\<close> returns.\<close>

definition initializeGameState :: "(nat \<Rightarrow> nat) \<Rightarrow> nat \<Rightarrow> Puzzle \<Rightarrow> GameState" where
  "initializeGameState rnd now puzzle =
     \<lparr>puzzleId = puzzle_id puzzle, grid = initializeGrid rnd puzzle, mistakes = 0,
      solvedCategoryIds = [], status = Playing, startTime = now, endTime = None\<rparr>"

definition initialHookState :: "(nat \<Rightarrow> nat) \<Rightarrow> nat \<Rightarrow> Puzzle \<Rightarrow> HookState" where
  "initialHookState rnd now puzzle =
     \<lparr>gameState = initializeGameState rnd now puzzle, selectedSquareIds = [],
      lastMergeResult = None, shakingSquareIds = []\<rparr>"

section \<open>The hook's queries and actions (src/hooks/useGameState.ts)\<close>

definition isSquareSelected :: "HookState \<Rightarrow> string \<Rightarrow> bool" where
  "isSquareSelected s squareId = (squareId \<in> set (selectedSquareIds s))"

definition getSquareById :: "GameState \<Rightarrow> string \<Rightarrow> GridSquare option" where
  "getSquareById gs squareId = find (\<lambda>sq. sq_id sq = squareId) (grid gs)"

definition getCategoryById :: "Puzzle \<Rightarrow> string \<Rightarrow> Category option" where
  "getCategoryById puzzle cid = find (\<lambda>cat. cat_id cat = cid) (categories puzzle)"

text \<open>
  \<^verbatim>\<open>attemptMerge\<close> returns the next game state together with the \<^verbatim>\<open>MergeResult\<close>. The
  safety check returns a failure and queues no state update; a category mismatch
  increments \<open>mistakes\<close>; otherwise both squares are filtered out of the grid and the
  merged square is appended.
\<close>

definition attemptMerge ::
  "Puzzle \<Rightarrow> nat \<Rightarrow> GameState \<Rightarrow> string \<Rightarrow> string \<Rightarrow> GameState \<times> MergeResult" where
  "attemptMerge puzzle now gs squareIdA squareIdB =
     (case getSquareById gs squareIdA of
        None \<Rightarrow> (gs, MergeFailure DifferentCategories)
      | Some squareA \<Rightarrow>
         (case getSquareById gs squareIdB of
            None \<Rightarrow> (gs, MergeFailure DifferentCategories)
          | Some squareB \<Rightarrow>
             if categoryId squareA \<noteq> categoryId squareB
             then (gs\<lparr>mistakes := mistakes gs + 1\<rparr>, MergeFailure DifferentCategories)
             else
               let mergedSquare =
                     \<lparr>sq_id = sq_id squareA, items = items squareA @ items squareB,
                      categoryId = categoryId squareA,
                      isSolved = (length (items squareA) + length (items squareB) = 10)\<rparr>;
                   newGrid =
                     filter (\<lambda>sq. sq_id sq \<noteq> squareIdA \<and> sq_id sq \<noteq> squareIdB) (grid gs)
                       @ [mergedSquare];
                   newSolvedCategoryIds =
                     (if isSolved mergedSquare
                      then solvedCategoryIds gs @ [categoryId mergedSquare]
                      else solvedCategoryIds gs);
                   isWon = (length newSolvedCategoryIds = 10);
                   solvedCategory =
                     (if isSolved mergedSquare
                      then getCategoryById puzzle (categoryId mergedSquare) else None)
               in (gs\<lparr>grid := newGrid, solvedCategoryIds := newSolvedCategoryIds,
                       status := (if isWon then Won else Playing),
                       endTime := (if isWon then Some now else None)\<rparr>,
                   MergeSuccess mergedSquare solvedCategory)))"

text \<open>
  \<^verbatim>\<open>selectSquare\<close> returns the next hook state and, beside it, the result of the call of
  \<^verbatim>\<open>attemptMerge\<close> it made (\<open>None\<close> when it made none), so that "no merge is attempted"
  can be said of a call.
\<close>

definition selectSquare ::
  "Puzzle \<Rightarrow> nat \<Rightarrow> HookState \<Rightarrow> string \<Rightarrow> HookState \<times> MergeResult option" where
  "selectSquare puzzle now s squareId =
     (if status (gameState s) = Won then (s, None)
      else
        case getSquareById (gameState s) squareId of
          None \<Rightarrow> (s, None)
        | Some square \<Rightarrow>
           if isSolved square then (s, None)
           else
             let prev = selectedSquareIds s in
             if squareId \<in> set prev
             then (s\<lparr>selectedSquareIds := filter (\<lambda>i. i \<noteq> squareId) prev,
                     lastMergeResult := None, shakingSquareIds := []\<rparr>, None)
             else if length prev = 1
             then
               let (gs', result) = attemptMerge puzzle now (gameState s) (prev ! 0) squareId
               in (s\<lparr>gameState := gs', selectedSquareIds := [],
                      lastMergeResult := Some result,
                      shakingSquareIds :=
                        (if \<not> success result then [prev ! 0, squareId] else [])\<rparr>,
                   Some result)
             else (s\<lparr>selectedSquareIds := [squareId], lastMergeResult := None,
                     shakingSquareIds := []\<rparr>, None))"

definition clearSelection :: "HookState \<Rightarrow> HookState" where
  "clearSelection s =
     s\<lparr>selectedSquareIds := [], lastMergeResult := None, shakingSquareIds := []\<rparr>"

definition clearShake :: "HookState \<Rightarrow> HookState" where
  "clearShake s = s\<lparr>shakingSquareIds := []\<rparr>"

definition resetGame :: "(nat \<Rightarrow> nat) \<Rightarrow> nat \<Rightarrow> Puzzle \<Rightarrow> HookState \<Rightarrow> HookState" where
  "resetGame rnd now puzzle s =
     s\<lparr>gameState := initializeGameState rnd now puzzle, selectedSquareIds := [],
       lastMergeResult := None, shakingSquareIds := []\<rparr>"

text \<open>
  The states of a session of the hook on a puzzle: the initial state, and every state an
  action leads to, for any clock value and any random draws.
\<close>

inductive reachable :: "Puzzle \<Rightarrow> HookState \<Rightarrow> bool" for puzzle :: Puzzle where
  reach_init: "reachable puzzle (initialHookState rnd now puzzle)"
| reach_select: "reachable puzzle s \<Longrightarrow> reachable puzzle (fst (selectSquare puzzle now s squareId))"
| reach_reset: "reachable puzzle s \<Longrightarrow> reachable puzzle (resetGame rnd now puzzle s)"
| reach_clearSelection: "reachable puzzle s \<Longrightarrow> reachable puzzle (clearSelection s)"
| reach_clearShake: "reachable puzzle s \<Longrightarrow> reachable puzzle (clearShake s)"

text \<open>
  The precondition on puzzles: ten categories of ten items each, with pairwise distinct
  category ids.
\<close>

definition tenByTen :: "Puzzle \<Rightarrow> bool" where
  "tenByTen puzzle =
     (length (categories puzzle) = 10 \<and>
      list_all (\<lambda>c. length (cat_items c) = 10) (categories puzzle))"

definition wellFormed :: "Puzzle \<Rightarrow> bool" where
  "wellFormed puzzle = (tenByTen puzzle \<and> distinct (map cat_id (categories puzzle)))"

section \<open>Row packing (src/utils/gridLayout.ts)\<close>

record LayoutRow =
  squares :: "GridSquare list"
  totalItems :: nat

definition TARGET_ITEMS_PER_ROW :: nat where
  "TARGET_ITEMS_PER_ROW = 5"

definition MAX_ITEMS_PER_ROW :: nat where
  "MAX_ITEMS_PER_ROW = 10"

text \<open>
  \<^verbatim>\<open>[...squares].sort((a, b) => b.items.length - a.items.length)\<close>: a copy of the input,
  sorted by item count, larger first. \<^verbatim>\<open>Array.prototype.sort\<close> is stable; \<open>sort_key\<close> is
  the stable insertion sort, ascending in its key, and the key is the negated count.
\<close>

definition sortBySizeDesc :: "GridSquare list \<Rightarrow> GridSquare list" where
  "sortBySizeDesc sqs = sort_key (\<lambda>sq. - int (length (items sq))) sqs"

text \<open>
  The \<^verbatim>\<open>for\<close> loop of \<^verbatim>\<open>packIntoRows\<close> over the sorted squares; its state is the rows
  emitted so far, the squares of the current row and their running total. (The parameter
  \<^verbatim>\<open>squares\<close> of the source is \<open>sqs\<close> here, \<open>squares\<close> being the field of a row.)
\<close>

fun pack_loop ::
  "GridSquare list \<Rightarrow> LayoutRow list \<Rightarrow> GridSquare list \<Rightarrow> nat
     \<Rightarrow> LayoutRow list \<times> GridSquare list \<times> nat" where
  "pack_loop [] rows currentSquares currentTotal = (rows, currentSquares, currentTotal)"
| "pack_loop (square # rest) rows currentSquares currentTotal =
     (let itemCount = length (items square);
          wouldExceed = (currentTotal + itemCount > MAX_ITEMS_PER_ROW);
          isAtTarget = (currentTotal \<ge> TARGET_ITEMS_PER_ROW)
      in if (wouldExceed \<or> isAtTarget) \<and> length currentSquares > 0
         then pack_loop rest
                (rows @ [\<lparr>squares = currentSquares, totalItems = currentTotal\<rparr>])
                [square] itemCount
         else pack_loop rest rows (currentSquares @ [square]) (currentTotal + itemCount))"

definition packIntoRows :: "GridSquare list \<Rightarrow> LayoutRow list" where
  "packIntoRows sqs =
     (if length sqs = 0 then []
      else
        let sorted = sortBySizeDesc sqs;
            (rows, currentSquares, currentTotal) = pack_loop sorted [] [] 0
        in if length currentSquares > 0
           then rows @ [\<lparr>squares = currentSquares, totalItems = currentTotal\<rparr>]
           else rows)"

definition getUnsolvedSquares :: "GridSquare list \<Rightarrow> GridSquare list" where
  "getUnsolvedSquares sqs = filter (\<lambda>sq. \<not> isSolved sq) sqs"

definition getSolvedSquares :: "GridSquare list \<Rightarrow> GridSquare list" where
  "getSolvedSquares sqs = filter (\<lambda>sq. isSolved sq) sqs"

subsection \<open>The arrays of packIntoRows in a store\<close>

text \<open>
  To say that \<^verbatim>\<open>packIntoRows\<close> leaves its input array alone, the arrays are put in a
  store: a list of arrays, an address being an index, and allocation appending a new
  array. \<^verbatim>\<open>[...squares]\<close>, \<^verbatim>\<open>[]\<close> and \<^verbatim>\<open>[square]\<close> allocate, \<^verbatim>\<open>sort\<close> and \<^verbatim>\<open>push\<close> update
  in place. A row holds the address of its array of squares. The loop runs over the
  elements that the sorted copy holds when the loop starts; its body writes to the array
  of the current row only.
\<close>

type_synonym heap = "GridSquare list list"

definition alloc :: "heap \<Rightarrow> GridSquare list \<Rightarrow> heap \<times> nat" where
  "alloc h xs = (h @ [xs], length h)"

fun pack_loop_heap ::
  "GridSquare list \<Rightarrow> heap \<Rightarrow> (nat \<times> nat) list \<Rightarrow> nat \<Rightarrow> nat
     \<Rightarrow> heap \<times> (nat \<times> nat) list \<times> nat \<times> nat" where
  "pack_loop_heap [] h rows currentSquares currentTotal =
     (h, rows, currentSquares, currentTotal)"
| "pack_loop_heap (square # rest) h rows currentSquares currentTotal =
     (let itemCount = length (items square);
          wouldExceed = (currentTotal + itemCount > MAX_ITEMS_PER_ROW);
          isAtTarget = (currentTotal \<ge> TARGET_ITEMS_PER_ROW)
      in if (wouldExceed \<or> isAtTarget) \<and> length (h ! currentSquares) > 0
         then pack_loop_heap rest (fst (alloc h [square]))
                (rows @ [(currentSquares, currentTotal)]) (snd (alloc h [square])) itemCount
         else pack_loop_heap rest (h[currentSquares := h ! currentSquares @ [square]])
                rows currentSquares (currentTotal + itemCount))"

definition packIntoRows_heap :: "heap \<Rightarrow> nat \<Rightarrow> heap \<times> (nat \<times> nat) list" where
  "packIntoRows_heap h sqs =
     (if length (h ! sqs) = 0 then (h, [])
      else
        let (h1, sorted) = alloc h (h ! sqs);
            h2 = h1[sorted := sortBySizeDesc (h1 ! sorted)];
            (h3, currentSquares0) = alloc h2 [];
            (h4, rows, currentSquares, currentTotal) =
               pack_loop_heap (h3 ! sorted) h3 [] currentSquares0 0
        in if length (h4 ! currentSquares) > 0
           then (h4, rows @ [(currentSquares, currentTotal)])
           else (h4, rows))"

definition read_rows :: "heap \<Rightarrow> (nat \<times> nat) list \<Rightarrow> LayoutRow list" where
  "read_rows h rows = map (\<lambda>(a, t). \<lparr>squares = h ! a, totalItems = t\<rparr>) rows"

section \<open>The sample puzzle (src/data/samplePuzzle.ts)\<close>

definition fruits :: Category where
  "fruits =
     \<lparr>cat_id = ''cat-fruits'', cat_name = ''Fruits'',
      cat_items =
        [''Apple'', ''Banana'', ''Orange'', ''Grape'', ''Mango'',
         ''Pineapple'', ''Strawberry'', ''Watermelon'', ''Peach'', ''Cherry''],
      difficulty = 1\<rparr>"

definition countries :: Category where
  "countries =
     \<lparr>cat_id = ''cat-countries'', cat_name = ''Countries'',
      cat_items =
        [''France'', ''Japan'', ''Brazil'', ''Egypt'', ''Canada'',
         ''Australia'', ''Mexico'', ''India'', ''Spain'', ''Italy''],
      difficulty = 2\<rparr>"

definition dogBreeds :: Category where
  "dogBreeds =
     \<lparr>cat_id = ''cat-dogs'', cat_name = ''Dog Breeds'',
      cat_items =
        [''Labrador'', ''Poodle'', ''Bulldog'', ''Beagle'', ''Husky'',
         ''Boxer'', ''Dalmatian'', ''Chihuahua'', ''Rottweiler'', ''Collie''],
      difficulty = 3\<rparr>"

definition elements :: Category where
  "elements =
     \<lparr>cat_id = ''cat-elements'', cat_name = ''Chemical Elements'',
      cat_items =
        [''Oxygen'', ''Hydrogen'', ''Carbon'', ''Gold'', ''Silver'',
         ''Iron'', ''Copper'', ''Helium'', ''Neon'', ''Zinc''],
      difficulty = 4\<rparr>"

definition greekGods :: Category where
  "greekGods =
     \<lparr>cat_id = ''cat-greek-gods'', cat_name = ''Greek Gods'',
      cat_items =
        [''Zeus'', ''Hera'', ''Poseidon'', ''Athena'', ''Apollo'',
         ''Artemis'', ''Hermes'', ''Hades'', ''Ares'', ''Aphrodite''],
      difficulty = 5\<rparr>"

definition pasta :: Category where
  "pasta =
     \<lparr>cat_id = ''cat-pasta'', cat_name = ''Pasta Shapes'',
      cat_items =
        [''Spaghetti'', ''Penne'', ''Rigatoni'', ''Fusilli'', ''Linguine'',
         ''Fettuccine'', ''Ravioli'', ''Lasagna'', ''Orzo'', ''Farfalle''],
      difficulty = 6\<rparr>"

definition instruments :: Category where
  "instruments =
     \<lparr>cat_id = ''cat-instruments'', cat_name = ''Musical Instruments'',
      cat_items =
        [''Piano'', ''Guitar'', ''Violin'', ''Drums'', ''Flute'',
         ''Trumpet'', ''Saxophone'', ''Cello'', ''Harp'', ''Clarinet''],
      difficulty = 7\<rparr>"

definition gemstones :: Category where
  "gemstones =
     \<lparr>cat_id = ''cat-gemstones'', cat_name = ''Gemstones'',
      cat_items =
        [''Diamond'', ''Ruby'', ''Emerald'', ''Sapphire'', ''Amethyst'',
         ''Topaz'', ''Opal'', ''Pearl'', ''Jade'', ''Garnet''],
      difficulty = 8\<rparr>"

definition currencies :: Category where
  "currencies =
     \<lparr>cat_id = ''cat-currencies'', cat_name = ''World Currencies'',
      cat_items =
        [''Dollar'', ''Euro'', ''Pound'', ''Yen'', ''Peso'',
         ''Franc'', ''Rupee'', ''Won'', ''Krona'', ''Baht''],
      difficulty = 9\<rparr>"

definition dances :: Category where
  "dances =
     \<lparr>cat_id = ''cat-dances'', cat_name = ''Types of Dance'',
      cat_items =
        [''Waltz'', ''Tango'', ''Salsa'', ''Ballet'', ''Foxtrot'',
         ''Rumba'', ''Swing'', ''Polka'', ''Mambo'', ''Samba''],
      difficulty = 10\<rparr>"

definition SAMPLE_PUZZLE :: Puzzle where
  "SAMPLE_PUZZLE =
     \<lparr>puzzle_id = ''puzzle-sample-001'', month = ''2026-01'',
      categories =
        [fruits, countries, dogBreeds, elements, greekGods,
         pasta, instruments, gemstones, currencies, dances]\<rparr>"

section \<open>Notions used in the statements\<close>

text \<open>
  The number of items on a grid, in all and per category; the merged square and the grid
  and game state that a successful merge of two squares produces; and the invariants of
  the reachable states.
\<close>

definition itemTotal :: "GridSquare list \<Rightarrow> nat" where
  "itemTotal g = sum_list (map (\<lambda>sq. length (items sq)) g)"

definition categoryTotal :: "string \<Rightarrow> GridSquare list \<Rightarrow> nat" where
  "categoryTotal c g =
     sum_list (map (\<lambda>sq. if categoryId sq = c then length (items sq) else 0) g)"

definition mergedOf :: "GridSquare \<Rightarrow> GridSquare \<Rightarrow> GridSquare" where
  "mergedOf squareA squareB =
     \<lparr>sq_id = sq_id squareA, items = items squareA @ items squareB,
      categoryId = categoryId squareA,
      isSolved = (length (items squareA) + length (items squareB) = 10)\<rparr>"

definition mergedGrid :: "GridSquare list \<Rightarrow> GridSquare \<Rightarrow> GridSquare \<Rightarrow> GridSquare list" where
  "mergedGrid g squareA squareB =
     filter (\<lambda>sq. sq_id sq \<noteq> sq_id squareA \<and> sq_id sq \<noteq> sq_id squareB) g
       @ [mergedOf squareA squareB]"

definition newSolved :: "GameState \<Rightarrow> GridSquare \<Rightarrow> GridSquare \<Rightarrow> string list" where
  "newSolved gs squareA squareB =
     (if isSolved (mergedOf squareA squareB)
      then solvedCategoryIds gs @ [categoryId squareA] else solvedCategoryIds gs)"

definition mergedState :: "nat \<Rightarrow> GameState \<Rightarrow> GridSquare \<Rightarrow> GridSquare \<Rightarrow> GameState" where
  "mergedState now gs squareA squareB =
     gs\<lparr>grid := mergedGrid (grid gs) squareA squareB,
        solvedCategoryIds := newSolved gs squareA squareB,
        status := (if length (newSolved gs squareA squareB) = 10 then Won else Playing),
        endTime := (if length (newSolved gs squareA squareB) = 10 then Some now else None)\<rparr>"

text \<open>The square that the initialization makes of the item at an index of a category.\<close>

definition singleton_square :: "Category \<Rightarrow> nat \<Rightarrow> GridSquare" where
  "singleton_square category index =
     \<lparr>sq_id = cat_id category @ ''-'' @ string_of_index index,
      items = [cat_items category ! index], categoryId = cat_id category, isSolved = False\<rparr>"

text \<open>
  The invariants: of a grid (distinct ids, no empty square, the solved flag, 100 items,
  10 items per category), of the solved categories and the status, and of the selection.
\<close>

definition gridInv :: "GridSquare list \<Rightarrow> bool" where
  "gridInv g =
     (distinct (map sq_id g) \<and>
      (\<forall>sq \<in> set g. items sq \<noteq> []) \<and>
      (\<forall>sq \<in> set g. isSolved sq = (length (items sq) = 10)) \<and>
      itemTotal g = 100 \<and>
      (\<forall>c. categoryTotal c g \<le> 10) \<and>
      (\<forall>sq \<in> set g. categoryTotal (categoryId sq) g = 10))"

definition solvedInv :: "GameState \<Rightarrow> bool" where
  "solvedInv gs =
     (distinct (solvedCategoryIds gs) \<and>
      set (solvedCategoryIds gs) = categoryId ` {sq \<in> set (grid gs). isSolved sq} \<and>
      (status gs = Won) = (length (solvedCategoryIds gs) = 10) \<and>
      (endTime gs \<noteq> None) = (status gs = Won))"

definition selectionInv :: "HookState \<Rightarrow> bool" where
  "selectionInv s =
     (case selectedSquareIds s of
        [] \<Rightarrow> True
      | [a] \<Rightarrow> status (gameState s) = Playing \<and>
               (\<exists>sq. getSquareById (gameState s) a = Some sq \<and> \<not> isSolved sq)
      | _ \<Rightarrow> False)"

definition gameInv :: "GameState \<Rightarrow> bool" where
  "gameInv gs = (gridInv (grid gs) \<and> solvedInv gs)"

text \<open>
  What claim C6 asks of a row; and, for the store, that the rows emitted so far lie in
  the store and apart from the array of the current row.
\<close>

definition rowOk :: "LayoutRow \<Rightarrow> bool" where
  "rowOk row = (squares row \<noteq> [] \<and> totalItems row = itemTotal (squares row) \<and>
                totalItems row \<le> 10)"

definition rows_in :: "heap \<Rightarrow> nat \<Rightarrow> (nat \<times> nat) list \<Rightarrow> bool" where
  "rows_in h cs rows = (\<forall>r \<in> set rows. fst r < length h \<and> fst r \<noteq> cs)"

section \<open>Concrete states for the instances\<close>

definition sampleStart :: HookState where
  "sampleStart = initialHookState (\<lambda>i. i) 0 SAMPLE_PUZZLE"

definition sampleFirst :: HookState where
  "sampleFirst = fst (selectSquare SAMPLE_PUZZLE 1 sampleStart ''cat-fruits-0'')"

definition apple :: GridSquare where
  "apple = \<lparr>sq_id = ''cat-fruits-0'', items = [''Apple''], categoryId = ''cat-fruits'',
             isSolved = False\<rparr>"

definition banana :: GridSquare where
  "banana = \<lparr>sq_id = ''cat-fruits-1'', items = [''Banana''], categoryId = ''cat-fruits'',
              isSolved = False\<rparr>"

definition trophyState :: HookState where
  "trophyState =
     \<lparr>gameState =
        \<lparr>puzzleId = ''puzzle-sample-001'',
         grid = [\<lparr>sq_id = ''cat-fruits-0'', items = cat_items fruits,
                  categoryId = ''cat-fruits'', isSolved = True\<rparr>,
                 \<lparr>sq_id = ''cat-dogs-3'', items = [''Beagle''],
                  categoryId = ''cat-dogs'', isSolved = False\<rparr>],
         mistakes = 2, solvedCategoryIds = [''cat-fruits''], status = Playing,
         startTime = 0, endTime = None\<rparr>,
      selectedSquareIds = [''cat-dogs-3''], lastMergeResult = None,
      shakingSquareIds = []\<rparr>"

definition sampleMerged :: HookState where
  "sampleMerged = fst (selectSquare SAMPLE_PUZZLE 2 sampleFirst ''cat-fruits-1'')"


text \<open>Nine singleton squares and one square of nine items, for the row packing.\<close>

definition nineAndNine :: "GridSquare list" where
  "nineAndNine =
     map (\<lambda>i. singleton_square countries i) [0..<9] @
     [\<lparr>sq_id = ''cat-fruits-0'', items = take 9 (cat_items fruits), categoryId = ''cat-fruits'',
       isSolved = False\<rparr>]"

section \<open>Verification\<close>

subsection \<open>Square ids\<close>

lemma digit_char_not_dash: "d < 10 \<Longrightarrow> digit_char d \<noteq> CHR ''-''"
proof -
  assume "d < 10"
  then have "d \<in> {0,1,2,3,4,5,6,7,8,9}" by auto
  then show ?thesis by (auto simp: digit_char_def)
qed

lemma digit_char_inj: "d < 10 \<Longrightarrow> e < 10 \<Longrightarrow> digit_char d = digit_char e \<Longrightarrow> d = e"
proof -
  assume a: "d < 10" "e < 10" "digit_char d = digit_char e"
  have "distinct ''0123456789''" by simp
  with a show ?thesis
    by (simp add: digit_char_def nth_eq_iff_index_eq)
qed

lemma dash_notin_index: "CHR ''-'' \<notin> set (string_of_index n)"
proof (induction n rule: string_of_index.induct)
  case (1 n)
  show ?case
  proof (cases "n < 10")
    case True
    then show ?thesis using digit_char_not_dash [of n]
      by (subst string_of_index.simps) auto
  next
    case False
    then show ?thesis using 1 digit_char_not_dash [of "n mod 10"]
      by (subst string_of_index.simps) auto
  qed
qed

lemma string_of_index_nonempty: "string_of_index n \<noteq> []"
  by (subst string_of_index.simps) simp

lemma string_of_index_inj: "string_of_index m = string_of_index n \<Longrightarrow> m = n"
proof (induction m arbitrary: n rule: string_of_index.induct)
  case (1 m)
  show ?case
  proof (cases "m < 10")
    case mlt: True
    show ?thesis
    proof (cases "n < 10")
      case True
      with mlt 1(2) show ?thesis
        by (simp add: string_of_index.simps [of m] string_of_index.simps [of n] digit_char_inj)
    next
      case False
      with mlt 1(2) string_of_index_nonempty [of "n div 10"] show ?thesis
        by (simp add: string_of_index.simps [of m] string_of_index.simps [of n])
    qed
  next
    case mge: False
    show ?thesis
    proof (cases "n < 10")
      case True
      with mge 1(2) string_of_index_nonempty [of "m div 10"] show ?thesis
        by (simp add: string_of_index.simps [of m] string_of_index.simps [of n])
    next
      case False
      with mge 1(2) have e: "string_of_index (m div 10) = string_of_index (n div 10)"
        and d: "digit_char (m mod 10) = digit_char (n mod 10)"
        by (simp_all add: string_of_index.simps [of m] string_of_index.simps [of n])
      from e mge 1(1) have "m div 10 = n div 10" by blast
      moreover from d have "m mod 10 = n mod 10" by (simp add: digit_char_inj)
      ultimately show ?thesis by (metis div_mult_mod_eq)
    qed
  qed
qed

lemma split_at_last_sep:
  assumes "x \<notin> set ys" "x \<notin> set ys'" "xs @ x # ys = xs' @ x # ys'"
  shows "xs = xs' \<and> ys = ys'"
proof -
  have tw: "takeWhile (\<lambda>y. y \<noteq> x) (as @ x # bs) = as" if "x \<notin> set as" for as bs
    using that by (induction as) auto
  have "takeWhile (\<lambda>y. y \<noteq> x) (rev (xs @ x # ys)) = rev ys"
    using assms(1) tw [of "rev ys" "rev xs"] by simp
  moreover have "takeWhile (\<lambda>y. y \<noteq> x) (rev (xs' @ x # ys')) = rev ys'"
    using assms(2) tw [of "rev ys'" "rev xs'"] by simp
  ultimately have "rev ys = rev ys'" using assms(3) by metis
  then have "ys = ys'" by simp
  with assms(3) show ?thesis by simp
qed

lemma square_id_inj: "square_id c i = square_id c' j \<Longrightarrow> c = c' \<and> i = j"
proof -
  assume "square_id c i = square_id c' j"
  then have "c @ CHR ''-'' # string_of_index i = c' @ CHR ''-'' # string_of_index j"
    by (simp add: square_id_def)
  then have "c = c' \<and> string_of_index i = string_of_index j"
    by (rule split_at_last_sep [OF dash_notin_index dash_notin_index])
  then show ?thesis by (simp add: string_of_index_inj)
qed

subsection \<open>The shuffle is a permutation\<close>

lemma length_shuffle_loop: "length (shuffle_loop rnd i xs) = length xs"
  by (induction i arbitrary: xs) (simp_all add: Let_def)

lemma mset_shuffle_loop: "i < length xs \<Longrightarrow> mset (shuffle_loop rnd i xs) = mset xs"
proof (induction i arbitrary: xs)
  case 0
  then show ?case by simp
next
  case (Suc i)
  let ?j = "rnd (Suc i) mod (Suc i + 1)"
  have "?j < Suc i + 1" by (rule mod_less_divisor) simp
  then have j: "?j < length xs" using Suc.prems by linarith
  have "mset (xs[Suc i := xs ! ?j, ?j := xs ! Suc i]) = mset xs"
    using Suc.prems j by (simp add: mset_swap)
  then show ?case using Suc by (simp add: Let_def)
qed

lemma mset_shuffleArray: "mset (shuffleArray rnd xs) = mset xs"
proof (cases xs)
  case Nil
  then show ?thesis by (simp add: shuffleArray_def)
next
  case (Cons a list)
  then show ?thesis by (simp add: shuffleArray_def mset_shuffle_loop)
qed

subsection \<open>Looking up and removing squares by id\<close>

lemma find_id_None: "a \<notin> sq_id ` set g \<Longrightarrow> find (\<lambda>sq. sq_id sq = a) g = None"
  by (induction g) auto

lemma find_id_mem: "find (\<lambda>sq. sq_id sq = a) g = Some A \<Longrightarrow> A \<in> set g \<and> sq_id A = a"
  by (induction g) (auto split: if_splits)

lemma find_id_unique:
  "distinct (map sq_id g) \<Longrightarrow> A \<in> set g \<Longrightarrow> find (\<lambda>sq. sq_id sq = sq_id A) g = Some A"
  by (induction g) (auto simp: rev_image_eqI)

lemma filter_id_remove1:
  "distinct (map sq_id g) \<Longrightarrow> find (\<lambda>sq. sq_id sq = a) g = Some A \<Longrightarrow>
   filter (\<lambda>sq. sq_id sq \<noteq> a) g = remove1 A g"
proof (induction g)
  case Nil
  then show ?case by simp
next
  case (Cons x g)
  show ?case
  proof (cases "sq_id x = a")
    case True
    with Cons.prems have "A = x" by simp
    moreover from True Cons.prems(1) have "filter (\<lambda>sq. sq_id sq \<noteq> a) g = g"
      by (force simp: filter_id_conv image_iff)
    ultimately show ?thesis using True by simp
  next
    case False
    with Cons.prems have f: "find (\<lambda>sq. sq_id sq = a) g = Some A" by simp
    then have "sq_id A = a" using find_id_mem by blast
    with False have "x \<noteq> A" by auto
    with False f Cons show ?thesis by simp
  qed
qed

lemma find_filter_other:
  "a \<noteq> b \<Longrightarrow> find (\<lambda>sq. sq_id sq = b) (filter (\<lambda>sq. sq_id sq \<noteq> a) g)
     = find (\<lambda>sq. sq_id sq = b) g"
  by (induction g) auto

lemma filter_two_remove1:
  assumes "distinct (map sq_id g)"
    and "find (\<lambda>sq. sq_id sq = a) g = Some A"
    and "find (\<lambda>sq. sq_id sq = b) g = Some B"
    and "a \<noteq> b"
  shows "filter (\<lambda>sq. sq_id sq \<noteq> a \<and> sq_id sq \<noteq> b) g = remove1 B (remove1 A g)"
proof -
  have r: "filter (\<lambda>sq. sq_id sq \<noteq> a) g = remove1 A g"
    using assms(1,2) by (rule filter_id_remove1)
  have "distinct (map sq_id (filter (\<lambda>sq. sq_id sq \<noteq> a) g))"
    using assms(1) by (simp add: distinct_map_filter)
  moreover have "find (\<lambda>sq. sq_id sq = b) (filter (\<lambda>sq. sq_id sq \<noteq> a) g) = Some B"
    using assms(3,4) by (simp add: find_filter_other)
  ultimately have r2: "filter (\<lambda>sq. sq_id sq \<noteq> b) (filter (\<lambda>sq. sq_id sq \<noteq> a) g)
      = remove1 B (filter (\<lambda>sq. sq_id sq \<noteq> a) g)"
    by (rule filter_id_remove1)
  have "filter (\<lambda>sq. sq_id sq \<noteq> a \<and> sq_id sq \<noteq> b) g
      = filter (\<lambda>sq. sq_id sq \<noteq> b) (filter (\<lambda>sq. sq_id sq \<noteq> a) g)"
    by simp
  also have "\<dots> = remove1 B (filter (\<lambda>sq. sq_id sq \<noteq> a) g)" by (rule r2)
  also have "\<dots> = remove1 B (remove1 A g)" by (simp only: r)
  finally show ?thesis .
qed

lemma second_in_rest:
  assumes "find (\<lambda>sq. sq_id sq = a) g = Some A"
    and "find (\<lambda>sq. sq_id sq = b) g = Some B"
    and "a \<noteq> b"
  shows "B \<in> set (remove1 A g)"
proof -
  from assms have "B \<in> set g" "B \<noteq> A" using find_id_mem by blast+
  then show ?thesis by simp
qed

lemma sum_two_removed:
  assumes "find (\<lambda>sq. sq_id sq = a) g = Some A"
    and "find (\<lambda>sq. sq_id sq = b) g = Some B"
    and "a \<noteq> b"
  shows "sum_list (map f g) = (f A :: nat) + f B + sum_list (map f (remove1 B (remove1 A g)))"
proof -
  have "A \<in> set g" using assms(1) find_id_mem by blast
  then have "sum_list (map f g) = f A + sum_list (map f (remove1 A g))"
    by (rule sum_list_map_remove1)
  moreover have "sum_list (map f (remove1 A g)) = f B + sum_list (map f (remove1 B (remove1 A g)))"
    using second_in_rest [OF assms] by (rule sum_list_map_remove1)
  ultimately show ?thesis by simp
qed

subsection \<open>The initial grid\<close>

lemma sum_list_map_mset_cong:
  "mset g = mset h \<Longrightarrow> sum_list (map f g) = (sum_list (map f h) :: nat)"
proof -
  assume "mset g = mset h"
  then have "mset (map f g) = mset (map f h)" by simp
  then have "sum_mset (mset (map f g)) = sum_mset (mset (map f h))" by simp
  then show ?thesis by (simp only: sum_mset_sum_list)
qed

lemma gridInv_mset_cong:
  assumes "mset g = mset h"
  shows "gridInv g = gridInv h"
proof -
  have "mset (map sq_id g) = mset (map sq_id h)" using assms by simp
  then have d: "distinct (map sq_id g) = distinct (map sq_id h)"
    by (rule mset_eq_imp_distinct_iff)
  have s: "set g = set h" using assms by (rule mset_eq_setD)
  have i: "itemTotal g = itemTotal h"
    unfolding itemTotal_def using assms by (rule sum_list_map_mset_cong)
  have c: "categoryTotal c g = categoryTotal c h" for c
    unfolding categoryTotal_def using assms by (rule sum_list_map_mset_cong)
  show ?thesis unfolding gridInv_def by (simp only: d s i c)
qed

lemma sq_ids_category_squares:
  "map sq_id (category_squares cat) = map (square_id (cat_id cat)) [0..<length (cat_items cat)]"
proof -
  have "map sq_id (category_squares cat)
      = map (\<lambda>x. square_id (cat_id cat) (fst x)) (enumerate 0 (cat_items cat))"
    by (simp add: category_squares_def case_prod_unfold comp_def)
  also have "\<dots> = map (square_id (cat_id cat)) (map fst (enumerate 0 (cat_items cat)))"
    by (simp only: map_map comp_def)
  also have "\<dots> = map (square_id (cat_id cat)) [0..<length (cat_items cat)]"
    by simp
  finally show ?thesis .
qed

lemma distinct_ids_category_squares: "distinct (map sq_id (category_squares cat))"
proof -
  have "inj_on (square_id (cat_id cat)) (set [0..<length (cat_items cat)])"
    by (rule inj_onI) (use square_id_inj in blast)
  then show ?thesis by (simp add: sq_ids_category_squares distinct_map)
qed

lemma categoryId_category_squares:
  "sq \<in> set (category_squares cat) \<Longrightarrow>
   categoryId sq = cat_id cat \<and> length (items sq) = 1 \<and> \<not> isSolved sq"
  by (auto simp: category_squares_def)

lemma sq_id_category_squares:
  "sq \<in> set (category_squares cat) \<Longrightarrow> \<exists>i. sq_id sq = square_id (cat_id cat) i"
  by (auto simp: category_squares_def)

lemma unshuffled_member:
  "sq \<in> set (unshuffled_squares puzzle) \<Longrightarrow>
   \<exists>cat \<in> set (categories puzzle). sq \<in> set (category_squares cat)"
  by (auto simp: unshuffled_squares_def)

lemma distinct_ids_concat:
  "distinct (map cat_id cats) \<Longrightarrow>
   distinct (map sq_id (concat (map category_squares cats)))"
proof (induction cats)
  case Nil
  then show ?case by simp
next
  case (Cons cat cats)
  have disj: "sq_id ` set (category_squares cat) \<inter>
              sq_id ` (\<Union>c \<in> set cats. set (category_squares c)) = {}"
  proof (rule ccontr)
    assume "\<not> ?thesis"
    then obtain x y c where x: "x \<in> set (category_squares cat)"
      and c: "c \<in> set cats" and y: "y \<in> set (category_squares c)"
      and e: "sq_id x = sq_id y" by auto
    from x obtain i where "sq_id x = square_id (cat_id cat) i"
      using sq_id_category_squares by blast
    moreover from y obtain j where "sq_id y = square_id (cat_id c) j"
      using sq_id_category_squares by blast
    ultimately have "cat_id cat = cat_id c" using e square_id_inj by metis
    with c Cons.prems show False by auto
  qed
  from Cons have "distinct (map sq_id (concat (map category_squares cats)))" by simp
  with disj show ?case
    by (simp add: distinct_ids_category_squares)
qed

lemma itemTotal_append: "itemTotal (g @ h) = itemTotal g + itemTotal h"
  by (simp add: itemTotal_def)

lemma categoryTotal_append: "categoryTotal c (g @ h) = categoryTotal c g + categoryTotal c h"
  by (simp add: categoryTotal_def)

lemma sum_const_one: "(\<forall>x \<in> set xs. f x = (1::nat)) \<Longrightarrow> sum_list (map f xs) = length xs"
  by (induction xs) auto

lemma itemTotal_category_squares: "itemTotal (category_squares cat) = length (cat_items cat)"
proof -
  have "sum_list (map (\<lambda>sq. length (items sq)) (category_squares cat))
      = length (category_squares cat)"
    by (rule sum_const_one) (simp add: categoryId_category_squares)
  then show ?thesis by (simp add: itemTotal_def category_squares_def)
qed

lemma categoryTotal_le_itemTotal: "categoryTotal c g \<le> itemTotal g"
  unfolding categoryTotal_def itemTotal_def by (rule sum_list_mono) simp

lemma categoryTotal_other:
  "(\<forall>sq \<in> set g. categoryId sq \<noteq> c) \<Longrightarrow> categoryTotal c g = 0"
  by (simp add: categoryTotal_def)

lemma itemTotal_concat:
  "list_all (\<lambda>c. length (cat_items c) = 10) cats \<Longrightarrow>
   itemTotal (concat (map category_squares cats)) = 10 * length cats"
  by (induction cats) (simp_all add: itemTotal_def [of "[]"] itemTotal_append itemTotal_category_squares)

lemma categoryTotal_concat_other:
  "c \<notin> cat_id ` set cats \<Longrightarrow> categoryTotal c (concat (map category_squares cats)) = 0"
  by (rule categoryTotal_other) (use categoryId_category_squares in auto)

lemma categoryTotal_concat:
  "distinct (map cat_id cats) \<Longrightarrow> list_all (\<lambda>c. length (cat_items c) = 10) cats \<Longrightarrow>
   categoryTotal c (concat (map category_squares cats)) \<le> 10"
proof (induction cats)
  case Nil
  then show ?case by (simp add: categoryTotal_def)
next
  case (Cons cat cats)
  show ?case
  proof (cases "cat_id cat = c")
    case True
    with Cons.prems have "c \<notin> cat_id ` set cats" by auto
    then have "categoryTotal c (concat (map category_squares cats)) = 0"
      by (rule categoryTotal_concat_other)
    moreover have "categoryTotal c (category_squares cat) \<le> 10"
      using categoryTotal_le_itemTotal [of c "category_squares cat"] Cons.prems(2)
      by (simp add: itemTotal_category_squares)
    ultimately show ?thesis by (simp add: categoryTotal_append)
  next
    case False
    then have "categoryTotal c (category_squares cat) = 0"
      by (intro categoryTotal_other) (use categoryId_category_squares in auto)
    with Cons show ?thesis by (simp add: categoryTotal_append)
  qed
qed

lemma categoryTotal_own:
  "(\<forall>sq \<in> set g. categoryId sq = c) \<Longrightarrow> categoryTotal c g = itemTotal g"
  by (simp add: categoryTotal_def itemTotal_def cong: map_cong)

lemma categoryTotal_concat_eq:
  "distinct (map cat_id cats) \<Longrightarrow> list_all (\<lambda>c. length (cat_items c) = 10) cats \<Longrightarrow>
   cat \<in> set cats \<Longrightarrow>
   categoryTotal (cat_id cat) (concat (map category_squares cats)) = 10"
proof (induction cats)
  case Nil
  then show ?case by simp
next
  case (Cons x cats)
  show ?case
  proof (cases "cat_id x = cat_id cat")
    case True
    with Cons.prems(1) have "cat_id cat \<notin> cat_id ` set cats" by auto
    then have "categoryTotal (cat_id cat) (concat (map category_squares cats)) = 0"
      by (rule categoryTotal_concat_other)
    moreover have "categoryTotal (cat_id cat) (category_squares x) = itemTotal (category_squares x)"
      by (rule categoryTotal_own) (use True categoryId_category_squares in auto)
    moreover have "itemTotal (category_squares x) = 10"
      using Cons.prems(2) by (simp add: itemTotal_category_squares)
    ultimately show ?thesis by (simp add: categoryTotal_append)
  next
    case False
    then have "categoryTotal (cat_id cat) (category_squares x) = 0"
      by (intro categoryTotal_other) (use categoryId_category_squares in auto)
    moreover from False Cons.prems(3) have "cat \<in> set cats" by auto
    ultimately show ?thesis using Cons by (simp add: categoryTotal_append)
  qed
qed

lemma gridInv_unshuffled:
  assumes "wellFormed puzzle"
  shows "gridInv (unshuffled_squares puzzle)"
proof -
  from assms have len: "length (categories puzzle) = 10"
    and all: "list_all (\<lambda>c. length (cat_items c) = 10) (categories puzzle)"
    and dist: "distinct (map cat_id (categories puzzle))"
    by (simp_all add: wellFormed_def tenByTen_def)
  have 1: "distinct (map sq_id (unshuffled_squares puzzle))"
    unfolding unshuffled_squares_def using dist by (rule distinct_ids_concat)
  have 2: "\<forall>sq \<in> set (unshuffled_squares puzzle). items sq \<noteq> []"
    using unshuffled_member categoryId_category_squares by fastforce
  have 3: "\<forall>sq \<in> set (unshuffled_squares puzzle). isSolved sq = (length (items sq) = 10)"
    using unshuffled_member categoryId_category_squares by fastforce
  have 4: "itemTotal (unshuffled_squares puzzle) = 100"
    unfolding unshuffled_squares_def using itemTotal_concat [OF all] len by simp
  have 5: "\<forall>c. categoryTotal c (unshuffled_squares puzzle) \<le> 10"
    unfolding unshuffled_squares_def using categoryTotal_concat [OF dist all] by simp
  have 6: "\<forall>sq \<in> set (unshuffled_squares puzzle).
      categoryTotal (categoryId sq) (unshuffled_squares puzzle) = 10"
  proof
    fix sq assume "sq \<in> set (unshuffled_squares puzzle)"
    then obtain cat where cat: "cat \<in> set (categories puzzle)" "sq \<in> set (category_squares cat)"
      using unshuffled_member by blast
    then have "categoryId sq = cat_id cat" using categoryId_category_squares by blast
    then show "categoryTotal (categoryId sq) (unshuffled_squares puzzle) = 10"
      unfolding unshuffled_squares_def using categoryTotal_concat_eq [OF dist all cat(1)] by simp
  qed
  from 1 2 3 4 5 6 show ?thesis unfolding gridInv_def by blast
qed

lemma gridInv_initializeGrid: "wellFormed puzzle \<Longrightarrow> gridInv (initializeGrid rnd puzzle)"
  using gridInv_mset_cong [of "initializeGrid rnd puzzle" "unshuffled_squares puzzle"]
    gridInv_unshuffled [of puzzle]
  by (simp add: initializeGrid_def mset_shuffleArray)

subsection \<open>The three outcomes of a merge attempt\<close>

lemma attemptMerge_missing:
  "getSquareById gs a = None \<or> getSquareById gs b = None \<Longrightarrow>
   attemptMerge puzzle now gs a b = (gs, MergeFailure DifferentCategories)"
  by (auto simp: attemptMerge_def split: option.splits)

lemma attemptMerge_mismatch:
  "getSquareById gs a = Some A \<Longrightarrow> getSquareById gs b = Some B \<Longrightarrow>
   categoryId A \<noteq> categoryId B \<Longrightarrow>
   attemptMerge puzzle now gs a b
     = (gs\<lparr>mistakes := mistakes gs + 1\<rparr>, MergeFailure DifferentCategories)"
  by (simp add: attemptMerge_def)

lemma attemptMerge_match:
  assumes "getSquareById gs a = Some A" "getSquareById gs b = Some B"
    and "categoryId A = categoryId B"
  shows "attemptMerge puzzle now gs a b
     = (mergedState now gs A B,
        MergeSuccess (mergedOf A B)
          (if isSolved (mergedOf A B) then getCategoryById puzzle (categoryId A) else None))"
proof -
  from assms(1,2) have "sq_id A = a" "sq_id B = b"
    using find_id_mem unfolding getSquareById_def by blast+
  with assms show ?thesis
    by (simp add: attemptMerge_def Let_def mergedGrid_def mergedOf_def mergedState_def
        newSolved_def)
qed

lemma mergedGrid_remove1:
  assumes "distinct (map sq_id g)" "A \<in> set g" "B \<in> set g" "sq_id A \<noteq> sq_id B"
  shows "mergedGrid g A B = remove1 B (remove1 A g) @ [mergedOf A B]"
  unfolding mergedGrid_def
  using filter_two_remove1 [OF assms(1) find_id_unique [OF assms(1,2)]
      find_id_unique [OF assms(1,3)] assms(4)]
  by simp

lemma sum_mergedGrid:
  assumes "distinct (map sq_id g)" "A \<in> set g" "B \<in> set g" "sq_id A \<noteq> sq_id B"
    and "f (mergedOf A B) = f A + f B"
  shows "sum_list (map f (mergedGrid g A B)) = (sum_list (map f g) :: nat)"
  using sum_two_removed [OF find_id_unique [OF assms(1,2)] find_id_unique [OF assms(1,3)]
      assms(4), of f] assms(5)
  by (simp add: mergedGrid_remove1 [OF assms(1-4)])

lemma gridInv_mergedGrid:
  assumes inv: "gridInv g" and A: "A \<in> set g" and B: "B \<in> set g"
    and ne: "sq_id A \<noteq> sq_id B" and cat: "categoryId A = categoryId B"
  shows "gridInv (mergedGrid g A B)"
proof -
  from inv have d: "distinct (map sq_id g)" by (simp add: gridInv_def)
  let ?F = "filter (\<lambda>sq. sq_id sq \<noteq> sq_id A \<and> sq_id sq \<noteq> sq_id B) g"
  have sub: "set ?F \<subseteq> set g" by auto
  have 1: "distinct (map sq_id (mergedGrid g A B))"
    using d by (auto simp: mergedGrid_def mergedOf_def distinct_map_filter)
  have "items A \<noteq> []" using inv A by (simp add: gridInv_def)
  then have 2: "\<forall>sq \<in> set (mergedGrid g A B). items sq \<noteq> []"
    using inv sub by (auto simp: mergedGrid_def mergedOf_def gridInv_def)
  have 3: "\<forall>sq \<in> set (mergedGrid g A B). isSolved sq = (length (items sq) = 10)"
    using inv sub by (auto simp: mergedGrid_def mergedOf_def gridInv_def)
  have "itemTotal (mergedGrid g A B) = itemTotal g"
    unfolding itemTotal_def
    by (rule sum_mergedGrid [OF d A B ne]) (simp add: mergedOf_def)
  then have 4: "itemTotal (mergedGrid g A B) = 100" using inv by (simp add: gridInv_def)
  have same: "categoryTotal c (mergedGrid g A B) = categoryTotal c g" for c
    unfolding categoryTotal_def
    by (rule sum_mergedGrid [OF d A B ne]) (simp add: mergedOf_def cat)
  then have 5: "\<forall>c. categoryTotal c (mergedGrid g A B) \<le> 10"
    using inv by (simp add: gridInv_def)
  have 6: "\<forall>sq \<in> set (mergedGrid g A B). categoryTotal (categoryId sq) (mergedGrid g A B) = 10"
  proof
    fix sq assume "sq \<in> set (mergedGrid g A B)"
    then have "sq \<in> set g \<or> categoryId sq = categoryId A"
      by (auto simp: mergedGrid_def mergedOf_def)
    then have "categoryTotal (categoryId sq) g = 10"
      using inv A by (auto simp: gridInv_def)
    then show "categoryTotal (categoryId sq) (mergedGrid g A B) = 10" by (simp only: same)
  qed
  from 1 2 3 4 5 6 show ?thesis unfolding gridInv_def by blast
qed

text \<open>No third square of the category of a pair that fills it.\<close>

lemma category_full_no_third:
  assumes inv: "gridInv g" and A: "A \<in> set g" and B: "B \<in> set g"
    and ne: "sq_id A \<noteq> sq_id B" and cat: "categoryId A = categoryId B"
    and S: "S \<in> set g" and Scat: "categoryId S = categoryId A"
    and SA: "S \<noteq> A" and SB: "S \<noteq> B"
  shows "length (items S) + length (items A) + length (items B) \<le> 10"
proof -
  from inv have d: "distinct (map sq_id g)" by (simp add: gridInv_def)
  let ?f = "\<lambda>sq. if categoryId sq = categoryId A then length (items sq) else 0"
  have "sum_list (map ?f g) = ?f A + ?f B + sum_list (map ?f (remove1 B (remove1 A g)))"
    by (rule sum_two_removed [OF find_id_unique [OF d A] find_id_unique [OF d B] ne])
  moreover have "S \<in> set (remove1 B (remove1 A g))" using S SA SB by simp
  then have "?f S \<le> sum_list (map ?f (remove1 B (remove1 A g)))"
    by (simp add: member_le_sum_list)
  moreover have "sum_list (map ?f g) \<le> 10"
    using inv by (simp add: gridInv_def categoryTotal_def)
  ultimately show ?thesis using cat Scat by simp
qed

lemma solved_same_category:
  assumes inv: "gridInv g" and A: "A \<in> set g" and B: "B \<in> set g"
    and ne: "sq_id A \<noteq> sq_id B" and cat: "categoryId A = categoryId B"
  shows "\<not> isSolved B"
proof
  assume "isSolved B"
  with inv B have "length (items B) = 10" by (simp add: gridInv_def)
  moreover from inv A have "items A \<noteq> []" by (simp add: gridInv_def)
  then have "0 < length (items A)" by simp
  moreover
  from inv have d: "distinct (map sq_id g)" by (simp add: gridInv_def)
  let ?f = "\<lambda>sq. if categoryId sq = categoryId A then length (items sq) else 0"
  have "sum_list (map ?f g) = ?f A + ?f B + sum_list (map ?f (remove1 B (remove1 A g)))"
    by (rule sum_two_removed [OF find_id_unique [OF d A] find_id_unique [OF d B] ne])
  moreover have "sum_list (map ?f g) \<le> 10"
    using inv by (simp add: gridInv_def categoryTotal_def)
  ultimately show False using cat by simp
qed

lemma solvedInv_merged:
  assumes inv: "gridInv (grid gs)" and sol: "solvedInv gs"
    and A: "A \<in> set (grid gs)" and B: "B \<in> set (grid gs)"
    and ne: "sq_id A \<noteq> sq_id B" and cat: "categoryId A = categoryId B"
    and uA: "\<not> isSolved A" and uB: "\<not> isSolved B"
  shows "solvedInv (mergedState now gs A B)"
proof -
  let ?g = "grid gs"
  let ?F = "filter (\<lambda>sq. sq_id sq \<noteq> sq_id A \<and> sq_id sq \<noteq> sq_id B) ?g"
  from inv have d: "distinct (map sq_id ?g)" by (simp add: gridInv_def)
  have FA: "sq \<in> set ?F \<longleftrightarrow> sq \<in> set ?g \<and> sq \<noteq> A \<and> sq \<noteq> B" for sq
  proof -
    have "sq_id sq = sq_id A \<Longrightarrow> sq \<in> set ?g \<Longrightarrow> sq = A" for sq
      using d A by (meson distinct_map inj_on_def)
    moreover have "sq_id sq = sq_id B \<Longrightarrow> sq \<in> set ?g \<Longrightarrow> sq = B" for sq
      using d B by (meson distinct_map inj_on_def)
    ultimately show ?thesis by auto
  qed
  have old: "{sq \<in> set ?F. isSolved sq} = {sq \<in> set ?g. isSolved sq}"
    using FA uA uB by auto
  have solvedset: "{sq \<in> set (mergedGrid ?g A B). isSolved sq}
      = {sq \<in> set ?g. isSolved sq} \<union> (if isSolved (mergedOf A B) then {mergedOf A B} else {})"
    using old by (auto simp: mergedGrid_def)
  have fresh: "categoryId A \<notin> set (solvedCategoryIds gs)" if full: "isSolved (mergedOf A B)"
  proof
    assume "categoryId A \<in> set (solvedCategoryIds gs)"
    with sol obtain S where S: "S \<in> set ?g" "isSolved S" "categoryId S = categoryId A"
      by (auto simp: solvedInv_def)
    with uA uB have "S \<noteq> A" "S \<noteq> B" by auto
    then have "length (items S) + length (items A) + length (items B) \<le> 10"
      using category_full_no_third [OF inv A B ne cat S(1) S(3)] by simp
    moreover from full have "length (items A) + length (items B) = 10"
      by (simp add: mergedOf_def)
    moreover from inv S have "length (items S) = 10" by (simp add: gridInv_def)
    ultimately show False by simp
  qed
  let ?ns = "newSolved gs A B"
  have 1: "distinct ?ns" using sol fresh by (simp add: solvedInv_def newSolved_def)
  have 2: "set ?ns = categoryId ` {sq \<in> set (mergedGrid ?g A B). isSolved sq}"
    using sol by (simp add: solvedset solvedInv_def mergedOf_def image_Un newSolved_def)
  show ?thesis unfolding solvedInv_def using 1 2 by (simp add: mergedState_def)
qed

subsection \<open>selectSquare by cases, and the invariants of the reachable states\<close>

lemma status_not_Won: "(st \<noteq> Won) = (st = Playing)"
  by (cases st) simp_all

lemma selectSquare_ignored_eq:
  "status (gameState s) = Won \<or> getSquareById (gameState s) squareId = None \<or>
   (\<exists>sq. getSquareById (gameState s) squareId = Some sq \<and> isSolved sq) \<Longrightarrow>
   selectSquare puzzle now s squareId = (s, None)"
  by (auto simp: selectSquare_def split: option.splits)

lemma selectSquare_deselect:
  "status (gameState s) = Playing \<Longrightarrow> getSquareById (gameState s) squareId = Some sq \<Longrightarrow>
   \<not> isSolved sq \<Longrightarrow> squareId \<in> set (selectedSquareIds s) \<Longrightarrow>
   selectSquare puzzle now s squareId
     = (s\<lparr>selectedSquareIds := filter (\<lambda>i. i \<noteq> squareId) (selectedSquareIds s),
          lastMergeResult := None, shakingSquareIds := []\<rparr>, None)"
  by (simp add: selectSquare_def)

lemma selectSquare_first:
  "status (gameState s) = Playing \<Longrightarrow> getSquareById (gameState s) squareId = Some sq \<Longrightarrow>
   \<not> isSolved sq \<Longrightarrow> squareId \<notin> set (selectedSquareIds s) \<Longrightarrow>
   length (selectedSquareIds s) \<noteq> 1 \<Longrightarrow>
   selectSquare puzzle now s squareId
     = (s\<lparr>selectedSquareIds := [squareId], lastMergeResult := None,
          shakingSquareIds := []\<rparr>, None)"
  by (simp add: selectSquare_def)

lemma selectSquare_second:
  "status (gameState s) = Playing \<Longrightarrow> getSquareById (gameState s) squareId = Some sq \<Longrightarrow>
   \<not> isSolved sq \<Longrightarrow> selectedSquareIds s = [a] \<Longrightarrow> a \<noteq> squareId \<Longrightarrow>
   selectSquare puzzle now s squareId
     = (s\<lparr>gameState := fst (attemptMerge puzzle now (gameState s) a squareId),
          selectedSquareIds := [],
          lastMergeResult := Some (snd (attemptMerge puzzle now (gameState s) a squareId)),
          shakingSquareIds :=
            (if \<not> success (snd (attemptMerge puzzle now (gameState s) a squareId))
             then [a, squareId] else [])\<rparr>,
        Some (snd (attemptMerge puzzle now (gameState s) a squareId)))"
  by (simp add: selectSquare_def case_prod_unfold Let_def)

text \<open>The four ways a call of selectSquare can go.\<close>

lemma selectSquare_cases:
  assumes sel: "selectionInv s"
  obtains
    (ignored) "selectSquare puzzle now s squareId = (s, None)"
  | (deselect) sq where "status (gameState s) = Playing"
      "getSquareById (gameState s) squareId = Some sq" "\<not> isSolved sq"
      "selectedSquareIds s = [squareId]"
      "selectSquare puzzle now s squareId
         = (s\<lparr>selectedSquareIds := [], lastMergeResult := None, shakingSquareIds := []\<rparr>, None)"
  | (first) sq where "status (gameState s) = Playing"
      "getSquareById (gameState s) squareId = Some sq" "\<not> isSolved sq"
      "selectedSquareIds s = []"
      "selectSquare puzzle now s squareId
         = (s\<lparr>selectedSquareIds := [squareId], lastMergeResult := None,
              shakingSquareIds := []\<rparr>, None)"
  | (second) a A B where "status (gameState s) = Playing"
      "getSquareById (gameState s) squareId = Some B" "\<not> isSolved B"
      "selectedSquareIds s = [a]" "a \<noteq> squareId"
      "getSquareById (gameState s) a = Some A" "\<not> isSolved A"
      "selectSquare puzzle now s squareId
         = (s\<lparr>gameState := fst (attemptMerge puzzle now (gameState s) a squareId),
              selectedSquareIds := [],
              lastMergeResult := Some (snd (attemptMerge puzzle now (gameState s) a squareId)),
              shakingSquareIds :=
                (if \<not> success (snd (attemptMerge puzzle now (gameState s) a squareId))
                 then [a, squareId] else [])\<rparr>,
            Some (snd (attemptMerge puzzle now (gameState s) a squareId)))"
proof (cases "status (gameState s) = Won \<or> getSquareById (gameState s) squareId = None \<or>
   (\<exists>sq. getSquareById (gameState s) squareId = Some sq \<and> isSolved sq)")
  case True
  then show ?thesis using ignored selectSquare_ignored_eq by blast
next
  case False
  then obtain sq where st: "status (gameState s) = Playing"
    and sq: "getSquareById (gameState s) squareId = Some sq" "\<not> isSolved sq"
    using status_not_Won by auto
  show ?thesis
  proof (cases "selectedSquareIds s")
    case Nil
    with st sq show ?thesis using first selectSquare_first [OF st sq, of puzzle now] by simp
  next
    case (Cons a rest)
    with sel have rest: "rest = []"
      and A: "\<exists>A. getSquareById (gameState s) a = Some A \<and> \<not> isSolved A"
      by (auto simp: selectionInv_def split: list.splits)
    then obtain A where A': "getSquareById (gameState s) a = Some A" "\<not> isSolved A" by blast
    show ?thesis
    proof (cases "a = squareId")
      case True
      with Cons rest st sq show ?thesis
        using deselect selectSquare_deselect [OF st sq, of puzzle now] by simp
    next
      case False
      with Cons rest st sq A' show ?thesis
        using second selectSquare_second [OF st sq, of a puzzle now] by simp
    qed
  qed
qed

lemma selectionInv_selectSquare:
  assumes "selectionInv s"
  shows "selectionInv (fst (selectSquare puzzle now s squareId))"
  using assms
proof (cases rule: selectSquare_cases [of s puzzle now squareId])
  case ignored
  with assms show ?thesis by simp
next
  case (deselect sq)
  then show ?thesis by (simp add: selectionInv_def)
next
  case (first sq)
  then show ?thesis by (simp add: selectionInv_def)
next
  case (second a A B)
  then show ?thesis by (simp add: selectionInv_def)
qed

lemma reachable_selectionInv: "reachable puzzle s \<Longrightarrow> selectionInv s"
proof (induction rule: reachable.induct)
  case (reach_init rnd now)
  then show ?case by (simp add: selectionInv_def initialHookState_def)
next
  case (reach_select s now squareId)
  then show ?case by (simp add: selectionInv_selectSquare)
next
  case (reach_reset s rnd now)
  then show ?case by (simp add: selectionInv_def resetGame_def)
next
  case (reach_clearSelection s)
  then show ?case by (simp add: selectionInv_def clearSelection_def)
next
  case (reach_clearShake s)
  then show ?case by (auto simp: selectionInv_def clearShake_def split: list.splits)
qed

lemma gameInv_mistakes: "gameInv (gs\<lparr>mistakes := m\<rparr>) = gameInv gs"
  by (simp add: gameInv_def solvedInv_def)

lemma gameInv_attemptMerge:
  assumes inv: "gameInv gs"
    and A: "getSquareById gs a = Some A" "\<not> isSolved A"
    and B: "getSquareById gs b = Some B" "\<not> isSolved B"
    and ne: "a \<noteq> b"
  shows "gameInv (fst (attemptMerge puzzle now gs a b))"
proof (cases "categoryId A = categoryId B")
  case False
  with inv A B show ?thesis by (simp add: attemptMerge_mismatch gameInv_mistakes)
next
  case True
  from A(1) B(1) have mem: "A \<in> set (grid gs)" "B \<in> set (grid gs)"
    and ids: "sq_id A = a" "sq_id B = b"
    using find_id_mem unfolding getSquareById_def by blast+
  from ids ne have ne': "sq_id A \<noteq> sq_id B" by simp
  from inv have g: "gridInv (grid gs)" and sol: "solvedInv gs" by (simp_all add: gameInv_def)
  have 1: "gridInv (mergedGrid (grid gs) A B)"
    using g mem ne' True by (rule gridInv_mergedGrid)
  have 2: "solvedInv (mergedState now gs A B)"
    using g sol mem ne' True A(2) B(2) by (rule solvedInv_merged)
  have e: "fst (attemptMerge puzzle now gs a b) = mergedState now gs A B"
    by (simp add: attemptMerge_match [OF A(1) B(1) True])
  have "grid (mergedState now gs A B) = mergedGrid (grid gs) A B"
    by (simp add: mergedState_def)
  with 1 2 show ?thesis by (simp only: e gameInv_def simp_thms)
qed

lemma gameInv_selectSquare:
  assumes "selectionInv s" "gameInv (gameState s)"
  shows "gameInv (gameState (fst (selectSquare puzzle now s squareId)))"
  using assms(1)
proof (cases rule: selectSquare_cases [of s puzzle now squareId])
  case ignored
  with assms show ?thesis by simp
next
  case (deselect sq)
  with assms show ?thesis by simp
next
  case (first sq)
  with assms show ?thesis by simp
next
  case (second a A B)
  with assms(2) show ?thesis by (simp add: gameInv_attemptMerge)
qed

lemma gameInv_initial: "wellFormed puzzle \<Longrightarrow> gameInv (initializeGameState rnd now puzzle)"
proof -
  assume wf: "wellFormed puzzle"
  have g: "gridInv (initializeGrid rnd puzzle)" using wf by (rule gridInv_initializeGrid)
  then have "\<forall>sq \<in> set (initializeGrid rnd puzzle). \<not> isSolved sq"
  proof -
    have "mset (initializeGrid rnd puzzle) = mset (unshuffled_squares puzzle)"
      by (simp add: initializeGrid_def mset_shuffleArray)
    then have "set (initializeGrid rnd puzzle) = set (unshuffled_squares puzzle)"
      by (rule mset_eq_setD)
    then show ?thesis using unshuffled_member categoryId_category_squares by blast
  qed
  with g show ?thesis
    by (simp add: gameInv_def solvedInv_def initializeGameState_def)
qed

lemma reachable_gameInv:
  assumes wf: "wellFormed puzzle"
  shows "reachable puzzle s \<Longrightarrow> gameInv (gameState s)"
proof (induction rule: reachable.induct)
  case (reach_init rnd now)
  show ?case using wf by (simp add: initialHookState_def gameInv_initial)
next
  case (reach_select s now squareId)
  then show ?case by (simp add: gameInv_selectSquare reachable_selectionInv)
next
  case (reach_reset s rnd now)
  show ?case using wf by (simp add: resetGame_def gameInv_initial)
next
  case (reach_clearSelection s)
  then show ?case by (simp add: clearSelection_def)
next
  case (reach_clearShake s)
  then show ?case by (simp add: clearShake_def)
qed

subsection \<open>The sample puzzle and the states of the instances\<close>

lemmas sample_defs = SAMPLE_PUZZLE_def fruits_def countries_def dogBreeds_def elements_def
  greekGods_def pasta_def instruments_def gemstones_def currencies_def dances_def

lemma wellFormed_sample: "wellFormed SAMPLE_PUZZLE"
  by (simp add: wellFormed_def tenByTen_def sample_defs)

lemma shuffle_loop_identity: "shuffle_loop (\<lambda>i. i) i xs = xs"
  by (induction i arbitrary: xs) (simp_all add: Let_def)

lemma shuffleArray_identity: "shuffleArray (\<lambda>i. i) xs = xs"
  by (simp add: shuffleArray_def shuffle_loop_identity)

lemma sample_grid_prefix:
  "\<exists>rest. grid (gameState sampleStart) =
     \<lparr>sq_id = ''cat-fruits-0'', items = [''Apple''], categoryId = ''cat-fruits'', isSolved = False\<rparr> #
     \<lparr>sq_id = ''cat-fruits-1'', items = [''Banana''], categoryId = ''cat-fruits'', isSolved = False\<rparr> # rest"
  by (simp add: sampleStart_def initialHookState_def initializeGameState_def initializeGrid_def
      shuffleArray_identity unshuffled_squares_def sample_defs category_squares_def
      square_id_def string_of_index.simps digit_char_def enumerate_eq_zip upt_rec)

lemma get0: "getSquareById (gameState sampleStart) ''cat-fruits-0'' =
   Some \<lparr>sq_id = ''cat-fruits-0'', items = [''Apple''], categoryId = ''cat-fruits'', isSolved = False\<rparr>"
  using sample_grid_prefix by (auto simp: getSquareById_def)

lemma get1: "getSquareById (gameState sampleStart) ''cat-fruits-1'' =
   Some \<lparr>sq_id = ''cat-fruits-1'', items = [''Banana''], categoryId = ''cat-fruits'', isSolved = False\<rparr>"
  using sample_grid_prefix by (auto simp: getSquareById_def)

subsection \<open>Selecting the second square of a category\<close>

lemma second_select_same_category:
  assumes wf: "wellFormed puzzle" and r: "reachable puzzle s"
    and sel: "selectedSquareIds s = [a]"
    and A: "getSquareById (gameState s) a = Some A"
    and B: "getSquareById (gameState s) b = Some B"
    and ne: "a \<noteq> b" and cat: "categoryId A = categoryId B"
  shows "selectSquare puzzle now s b
     = (s\<lparr>gameState := mergedState now (gameState s) A B, selectedSquareIds := [],
          lastMergeResult := Some (MergeSuccess (mergedOf A B)
            (if isSolved (mergedOf A B) then getCategoryById puzzle (categoryId A) else None)),
          shakingSquareIds := []\<rparr>,
        Some (MergeSuccess (mergedOf A B)
            (if isSolved (mergedOf A B) then getCategoryById puzzle (categoryId A) else None)))"
    and "grid (mergedState now (gameState s) A B)
       = remove1 B (remove1 A (grid (gameState s))) @ [mergedOf A B]"
    and "A \<in> set (grid (gameState s))" and "B \<in> set (remove1 A (grid (gameState s)))"
    and "sq_id A = a" and "sq_id B = b"
    and "distinct (map sq_id (grid (gameState s)))"
    and "items B \<noteq> []"
proof -
  from wf r have inv: "gameInv (gameState s)" by (rule reachable_gameInv)
  then have g: "gridInv (grid (gameState s))" by (simp add: gameInv_def)
  then show d: "distinct (map sq_id (grid (gameState s)))" by (simp add: gridInv_def)
  from r have "selectionInv s" by (rule reachable_selectionInv)
  with sel A have st: "status (gameState s) = Playing" and uA: "\<not> isSolved A"
    by (simp_all add: selectionInv_def)
  from A B show mem: "A \<in> set (grid (gameState s))" and ids: "sq_id A = a" "sq_id B = b"
    using find_id_mem unfolding getSquareById_def by blast+
  from B have memB: "B \<in> set (grid (gameState s))"
    using find_id_mem unfolding getSquareById_def by blast
  from ids ne have ne': "sq_id A \<noteq> sq_id B" by simp
  have uB: "\<not> isSolved B" using g mem memB ne' cat by (rule solved_same_category)
  from g memB show "items B \<noteq> []" by (simp add: gridInv_def)
  from ne' have "B \<noteq> A" by auto
  with memB show "B \<in> set (remove1 A (grid (gameState s)))" by simp
  show "grid (mergedState now (gameState s) A B)
       = remove1 B (remove1 A (grid (gameState s))) @ [mergedOf A B]"
    using mergedGrid_remove1 [OF d mem memB ne'] by (simp add: mergedState_def)
  show "selectSquare puzzle now s b
     = (s\<lparr>gameState := mergedState now (gameState s) A B, selectedSquareIds := [],
          lastMergeResult := Some (MergeSuccess (mergedOf A B)
            (if isSolved (mergedOf A B) then getCategoryById puzzle (categoryId A) else None)),
          shakingSquareIds := []\<rparr>,
        Some (MergeSuccess (mergedOf A B)
            (if isSolved (mergedOf A B) then getCategoryById puzzle (categoryId A) else None)))"
    by (simp add: selectSquare_second [OF st B uB sel ne] attemptMerge_match [OF A B cat])
qed

text \<open>
  Claim C1. In a reachable state of a well-formed puzzle where the square \<open>A\<close> (id \<open>a\<close>) is
  the sole selection, \<^verbatim>\<open>selectSquare\<close> on the id \<open>b \<noteq> a\<close> of a square \<open>B\<close> of the same
  category yields the grid in which \<open>A\<close> and \<open>B\<close> are removed and one merged square is
  appended: its id is \<open>a\<close>, its items are the items of \<open>A\<close> followed by those of \<open>B\<close>,
  its category is the shared one and it is solved iff it holds 10 items. The grid is
  shorter by exactly one, neither \<open>A\<close> nor \<open>B\<close> remains and the merged square occurs
  once. (That the state is playing and that \<open>A\<close> and \<open>B\<close> are unsolved follows from the
  hypotheses.)
\<close>

theorem merge_same_category:
  assumes "wellFormed puzzle" and "reachable puzzle s"
    and "selectedSquareIds s = [a]"
    and "getSquareById (gameState s) a = Some A"
    and "getSquareById (gameState s) b = Some B"
    and "a \<noteq> b" and "categoryId A = categoryId B"
  shows "\<exists>merged.
     merged = \<lparr>sq_id = a, items = items A @ items B, categoryId = categoryId B,
                isSolved = (length (items A @ items B) = 10)\<rparr> \<and>
     grid (gameState (fst (selectSquare puzzle now s b)))
       = remove1 B (remove1 A (grid (gameState s))) @ [merged] \<and>
     A \<in> set (grid (gameState s)) \<and> B \<in> set (remove1 A (grid (gameState s))) \<and>
     length (grid (gameState (fst (selectSquare puzzle now s b)))) + 1
       = length (grid (gameState s)) \<and>
     A \<notin> set (grid (gameState (fst (selectSquare puzzle now s b)))) \<and>
     B \<notin> set (grid (gameState (fst (selectSquare puzzle now s b)))) \<and>
     count_list (grid (gameState (fst (selectSquare puzzle now s b)))) merged = 1 \<and>
     (\<exists>solvedCategory. snd (selectSquare puzzle now s b)
         = Some (MergeSuccess merged solvedCategory))"
proof -
  note m = second_select_same_category [OF assms]
  let ?g = "grid (gameState s)"
  let ?R = "remove1 B (remove1 A ?g)"
  let ?g' = "grid (gameState (fst (selectSquare puzzle now s b)))"
  have M: "mergedOf A B = \<lparr>sq_id = a, items = items A @ items B, categoryId = categoryId B,
                isSolved = (length (items A @ items B) = 10)\<rparr>"
    using m(5) assms(7) by (simp add: mergedOf_def)
  have g': "?g' = ?R @ [mergedOf A B]"
    using m(1,2) by simp
  have dg: "distinct ?g" using m(7) by (simp add: distinct_map)
  have l1: "length (remove1 A ?g) + 1 = length ?g"
    using m(3) length_pos_if_in_set [OF m(3)] by (simp add: length_remove1)
  have l2: "length ?R + 1 = length (remove1 A ?g)"
    using m(4) length_pos_if_in_set [OF m(4)] by (simp add: length_remove1)
  have notA: "A \<notin> set ?R" using dg by simp
  have notB: "B \<notin> set ?R" using dg by simp
  have AM: "A \<noteq> mergedOf A B"
  proof
    assume "A = mergedOf A B"
    then have "items A = items (mergedOf A B)" by simp
    then have "items A = items A @ items B" by (simp add: mergedOf_def)
    then show False using m(8) by simp
  qed
  have BM: "B \<noteq> mergedOf A B"
  proof
    assume "B = mergedOf A B"
    then have "sq_id B = sq_id (mergedOf A B)" by simp
    then have "sq_id B = sq_id A" by (simp add: mergedOf_def)
    then show False using m(5,6) assms(6) by simp
  qed
  have MR: "mergedOf A B \<notin> set ?R"
  proof
    assume "mergedOf A B \<in> set ?R"
    then have "mergedOf A B \<in> set (remove1 A ?g)"
      using set_remove1_subset [of B "remove1 A ?g"] by blast
    then have in_g: "mergedOf A B \<in> set ?g"
      using set_remove1_subset [of A ?g] by blast
    have "sq_id (mergedOf A B) = sq_id A" by (simp add: mergedOf_def)
    then have "find (\<lambda>sq. sq_id sq = sq_id A) ?g = Some (mergedOf A B)"
      using find_id_unique [OF m(7) in_g] by simp
    moreover have "find (\<lambda>sq. sq_id sq = sq_id A) ?g = Some A"
      using find_id_unique [OF m(7) m(3)] .
    ultimately show False using AM by simp
  qed
  show ?thesis
  proof (rule exI [of _ "mergedOf A B"], intro conjI)
    show "mergedOf A B = \<lparr>sq_id = a, items = items A @ items B, categoryId = categoryId B,
                isSolved = (length (items A @ items B) = 10)\<rparr>" by (rule M)
    show "?g' = ?R @ [mergedOf A B]" by (rule g')
    show "A \<in> set ?g" by (rule m(3))
    show "B \<in> set (remove1 A ?g)" by (rule m(4))
    show "length ?g' + 1 = length ?g" using l1 l2 by (simp add: g')
    show "A \<notin> set ?g'" using notA AM by (simp add: g')
    show "B \<notin> set ?g'" using notB BM by (simp add: g')
    have "count_list ?R (mergedOf A B) = 0" using MR by (rule count_notin)
    moreover have "count_list [mergedOf A B] (mergedOf A B) = 1" by simp
    moreover have "count_list (?R @ [mergedOf A B]) (mergedOf A B)
        = count_list ?R (mergedOf A B) + count_list [mergedOf A B] (mergedOf A B)"
      by (rule count_list_append)
    ultimately have "count_list (?R @ [mergedOf A B]) (mergedOf A B) = 1" by linarith
    then show "count_list ?g' (mergedOf A B) = 1" by (simp only: g')
    show "\<exists>solvedCategory. snd (selectSquare puzzle now s b)
         = Some (MergeSuccess (mergedOf A B) solvedCategory)"
      by (simp add: m(1))
  qed
qed

lemma sampleStart_simps:
  "status (gameState sampleStart) = Playing" "selectedSquareIds sampleStart = []"
  "mistakes (gameState sampleStart) = 0"
  by (simp_all add: sampleStart_def initialHookState_def initializeGameState_def)

lemma sampleStart_apple: "getSquareById (gameState sampleStart) ''cat-fruits-0'' = Some apple"
  using sample_grid_prefix by (auto simp: getSquareById_def apple_def)

lemma sampleStart_banana: "getSquareById (gameState sampleStart) ''cat-fruits-1'' = Some banana"
  using sample_grid_prefix by (auto simp: getSquareById_def banana_def)

lemma sampleFirst_eq:
  "sampleFirst = sampleStart\<lparr>selectedSquareIds := [''cat-fruits-0''], lastMergeResult := None,
      shakingSquareIds := []\<rparr>"
  using selectSquare_first [OF sampleStart_simps(1) sampleStart_apple, of SAMPLE_PUZZLE 1]
  by (simp add: sampleFirst_def sampleStart_simps apple_def)

lemma reachable_sampleStart: "reachable SAMPLE_PUZZLE sampleStart"
  unfolding sampleStart_def by (rule reach_init)

lemma reachable_sampleFirst: "reachable SAMPLE_PUZZLE sampleFirst"
  unfolding sampleFirst_def using reachable_sampleStart by (rule reach_select)

lemma sampleFirst_simps:
  "selectedSquareIds sampleFirst = [''cat-fruits-0'']"
  "getSquareById (gameState sampleFirst) ''cat-fruits-0'' = Some apple"
  "getSquareById (gameState sampleFirst) ''cat-fruits-1'' = Some banana"
  "status (gameState sampleFirst) = Playing"
  by (simp_all add: sampleFirst_eq sampleStart_apple sampleStart_banana sampleStart_simps)

theorem merge_same_category_witness:
  "length (grid (gameState (fst (selectSquare SAMPLE_PUZZLE 2 sampleFirst ''cat-fruits-1'')))) + 1
     = length (grid (gameState sampleFirst)) \<and>
   (\<exists>solvedCategory. snd (selectSquare SAMPLE_PUZZLE 2 sampleFirst ''cat-fruits-1'')
      = Some (MergeSuccess
          \<lparr>sq_id = ''cat-fruits-0'', items = [''Apple'', ''Banana''],
           categoryId = ''cat-fruits'', isSolved = False\<rparr> solvedCategory))"
proof -
  have ne: "''cat-fruits-0'' \<noteq> ''cat-fruits-1''" by simp
  have cat: "categoryId apple = categoryId banana" by (simp add: apple_def banana_def)
  from merge_same_category [OF wellFormed_sample reachable_sampleFirst sampleFirst_simps(1-3)
      ne cat, of 2]
  show ?thesis by (auto simp: apple_def banana_def)
qed

text \<open>
  Claim C5. In any state, \<^verbatim>\<open>selectSquare\<close> with status \<open>won\<close>, or with an id that no
  square of the grid bears, or with the id of a solved square (the square that
  \<^verbatim>\<open>getSquareById\<close> finds for the id), returns the state as it
  was (grid, mistakes, solved categories, status, timestamps, selection and feedback
  markers) and calls \<^verbatim>\<open>attemptMerge\<close> not at all.
\<close>

theorem selectSquare_ignores_invalid:
  "status (gameState s) = Won \<or> getSquareById (gameState s) squareId = None \<or>
   (\<exists>sq. getSquareById (gameState s) squareId = Some sq \<and> isSolved sq) \<Longrightarrow>
   selectSquare puzzle now s squareId = (s, None)"
  by (auto simp: selectSquare_def split: option.splits)

theorem selectSquare_ignores_invalid_witness:
  "selectSquare SAMPLE_PUZZLE 5 trophyState ''cat-fruits-0'' = (trophyState, None) \<and>
   selectSquare SAMPLE_PUZZLE 5 trophyState ''cat-pasta-0'' = (trophyState, None) \<and>
   selectSquare SAMPLE_PUZZLE 5 (trophyState\<lparr>gameState := (gameState trophyState)\<lparr>status := Won\<rparr>\<rparr>)
      ''cat-dogs-3''
     = (trophyState\<lparr>gameState := (gameState trophyState)\<lparr>status := Won\<rparr>\<rparr>, None)"
proof -
  have 1: "\<exists>sq. getSquareById (gameState trophyState) ''cat-fruits-0'' = Some sq \<and> isSolved sq"
    by (simp add: trophyState_def getSquareById_def)
  have 2: "getSquareById (gameState trophyState) ''cat-pasta-0'' = None"
    by (simp add: trophyState_def getSquareById_def)
  have 3: "status (gameState (trophyState\<lparr>gameState := (gameState trophyState)\<lparr>status := Won\<rparr>\<rparr>)) = Won"
    by simp
  show ?thesis
    using selectSquare_ignores_invalid [of trophyState "''cat-fruits-0''" SAMPLE_PUZZLE 5]
      selectSquare_ignores_invalid [of trophyState "''cat-pasta-0''" SAMPLE_PUZZLE 5]
      selectSquare_ignores_invalid [of "trophyState\<lparr>gameState := (gameState trophyState)\<lparr>status := Won\<rparr>\<rparr>"
        "''cat-dogs-3''" SAMPLE_PUZZLE 5]
      1 2 3 by blast
qed

text \<open>
  Claim C8. In a reachable state whose selection is the single id \<open>a\<close> of an existing
  unsolved square, \<^verbatim>\<open>selectSquare\<close> on \<open>a\<close> empties the selection, calls
  \<^verbatim>\<open>attemptMerge\<close> not at all and leaves the game state (grid, mistakes, solved
  categories, status) as it was.
\<close>

theorem selectSquare_same_square_deselects:
  assumes "reachable puzzle s" and "selectedSquareIds s = [a]"
    and "getSquareById (gameState s) a = Some sq" and "\<not> isSolved sq"
  shows "selectSquare puzzle now s a
     = (s\<lparr>selectedSquareIds := [], lastMergeResult := None, shakingSquareIds := []\<rparr>, None)"
proof -
  from assms(1) have "selectionInv s" by (rule reachable_selectionInv)
  with assms(2) have st: "status (gameState s) = Playing" by (simp add: selectionInv_def)
  show ?thesis
    using selectSquare_deselect [OF st assms(3,4), of puzzle now] assms(2) by simp
qed

theorem selectSquare_same_square_deselects_witness:
  "selectSquare SAMPLE_PUZZLE 2 sampleFirst ''cat-fruits-0''
     = (sampleFirst\<lparr>selectedSquareIds := [], lastMergeResult := None, shakingSquareIds := []\<rparr>,
        None)"
proof -
  have u: "\<not> isSolved apple" by (simp add: apple_def)
  show ?thesis
    by (rule selectSquare_same_square_deselects [OF reachable_sampleFirst sampleFirst_simps(1,2) u])
qed

lemma reachable_sampleMerged: "reachable SAMPLE_PUZZLE sampleMerged"
  unfolding sampleMerged_def using reachable_sampleFirst by (rule reach_select)

text \<open>
  Claim C3. In every state reachable from the initialization of a well-formed puzzle by
  \<^verbatim>\<open>selectSquare\<close>, \<^verbatim>\<open>resetGame\<close>, \<^verbatim>\<open>clearSelection\<close> and \<^verbatim>\<open>clearShake\<close>, the item
  counts of the squares of the grid add up to 100.
\<close>

theorem item_total_is_100:
  assumes "wellFormed puzzle" and "reachable puzzle s"
  shows "itemTotal (grid (gameState s)) = 100"
  using reachable_gameInv [OF assms] by (simp add: gameInv_def gridInv_def)

theorem item_total_is_100_witness:
  "sum_list (map (\<lambda>sq. length (items sq)) (grid (gameState sampleMerged))) = 100"
  using item_total_is_100 [OF wellFormed_sample reachable_sampleMerged]
  by (simp add: itemTotal_def)

lemma find_id_iff_None: "(find (\<lambda>sq. sq_id sq = a) g = None) = (a \<notin> sq_id ` set g)"
  by (induction g) auto

lemma length_initializeGrid:
  assumes "tenByTen puzzle"
  shows "length (initializeGrid rnd puzzle) = 100"
proof -
  have "mset (initializeGrid rnd puzzle) = mset (unshuffled_squares puzzle)"
    by (simp add: initializeGrid_def mset_shuffleArray)
  then have "length (initializeGrid rnd puzzle) = length (unshuffled_squares puzzle)"
    by (rule mset_eq_length)
  also have "\<dots> = itemTotal (unshuffled_squares puzzle)"
  proof -
    have "\<forall>sq \<in> set (unshuffled_squares puzzle). length (items sq) = 1"
      using unshuffled_member categoryId_category_squares by blast
    then show ?thesis unfolding itemTotal_def by (simp add: sum_const_one)
  qed
  also have "\<dots> = 100"
    using assms itemTotal_concat [of "categories puzzle"]
    by (simp add: unshuffled_squares_def tenByTen_def)
  finally show ?thesis .
qed

lemma ids_after_merge:
  assumes "getSquareById gs a = Some A" "getSquareById gs b = Some B"
    and "categoryId A = categoryId B"
  shows "map sq_id (grid (fst (attemptMerge puzzle now gs a b)))
     = filter (\<lambda>i. i \<noteq> a \<and> i \<noteq> b) (map sq_id (grid gs)) @ [a]"
proof -
  from assms(1,2) have ids: "sq_id A = a" "sq_id B = b"
    using find_id_mem unfolding getSquareById_def by blast+
  show ?thesis
    by (simp add: attemptMerge_match [OF assms] mergedState_def mergedGrid_def mergedOf_def
        ids filter_map comp_def)
qed

text \<open>
  Claim C10. In every reachable state of a well-formed puzzle the ids of the squares of
  the grid are pairwise distinct, so \<^verbatim>\<open>getSquareById\<close> returns the one square that bears
  the id, or nothing when no square bears it. Initialization creates 100 squares with
  distinct ids, and a successful merge of the squares \<open>a\<close> and \<open>b\<close> removes both ids
  from the grid and appends the first id \<open>a\<close> again, for the merged square.
\<close>

theorem square_ids_distinct:
  assumes "wellFormed puzzle" and "reachable puzzle s"
  shows "distinct (map sq_id (grid (gameState s))) \<and>
    (\<forall>sq \<in> set (grid (gameState s)). getSquareById (gameState s) (sq_id sq) = Some sq) \<and>
    (\<forall>i. i \<notin> sq_id ` set (grid (gameState s)) \<longrightarrow> getSquareById (gameState s) i = None) \<and>
    length (grid (initializeGameState rnd now puzzle)) = 100 \<and>
    distinct (map sq_id (grid (initializeGameState rnd now puzzle))) \<and>
    (selectedSquareIds s = [a] \<and> getSquareById (gameState s) a = Some A \<and>
     getSquareById (gameState s) b = Some B \<and> a \<noteq> b \<and> categoryId A = categoryId B \<longrightarrow>
       map sq_id (grid (gameState (fst (selectSquare puzzle now' s b))))
         = filter (\<lambda>i. i \<noteq> a \<and> i \<noteq> b) (map sq_id (grid (gameState s))) @ [a] \<and>
       distinct (map sq_id (grid (gameState (fst (selectSquare puzzle now' s b))))))"
proof (intro conjI impI ballI allI)
  show d: "distinct (map sq_id (grid (gameState s)))"
    using reachable_gameInv [OF assms] by (simp add: gameInv_def gridInv_def)
  show "getSquareById (gameState s) (sq_id sq) = Some sq" if "sq \<in> set (grid (gameState s))" for sq
    unfolding getSquareById_def using d that by (rule find_id_unique)
  show "getSquareById (gameState s) i = None" if "i \<notin> sq_id ` set (grid (gameState s))" for i
    unfolding getSquareById_def using that by (rule find_id_None)
  show "length (grid (initializeGameState rnd now puzzle)) = 100"
    using assms(1) by (simp add: initializeGameState_def length_initializeGrid wellFormed_def)
  show "distinct (map sq_id (grid (initializeGameState rnd now puzzle)))"
    using gridInv_initializeGrid [OF assms(1), of rnd]
    by (simp add: initializeGameState_def gridInv_def)
next
  assume h: "selectedSquareIds s = [a] \<and> getSquareById (gameState s) a = Some A \<and>
     getSquareById (gameState s) b = Some B \<and> a \<noteq> b \<and> categoryId A = categoryId B"
  then have sel: "selectedSquareIds s = [a]" and A: "getSquareById (gameState s) a = Some A"
    and B: "getSquareById (gameState s) b = Some B" and ne: "a \<noteq> b"
    and cat: "categoryId A = categoryId B" by simp_all
  note m = second_select_same_category [OF assms sel A B ne cat]
  have e: "gameState (fst (selectSquare puzzle now' s b))
      = fst (attemptMerge puzzle now' (gameState s) a b)"
    by (simp add: m(1) attemptMerge_match [OF A B cat])
  show "map sq_id (grid (gameState (fst (selectSquare puzzle now' s b))))
         = filter (\<lambda>i. i \<noteq> a \<and> i \<noteq> b) (map sq_id (grid (gameState s))) @ [a]"
    unfolding e using A B cat by (rule ids_after_merge)
  have "reachable puzzle (fst (selectSquare puzzle now' s b))"
    using assms(2) by (rule reach_select)
  then show "distinct (map sq_id (grid (gameState (fst (selectSquare puzzle now' s b)))))"
    using reachable_gameInv [OF assms(1)] by (simp add: gameInv_def gridInv_def)
qed

theorem square_ids_distinct_witness:
  "distinct (map sq_id (grid (gameState sampleFirst))) \<and>
   length (grid (initializeGameState (\<lambda>i. 7 * i + 3) 0 SAMPLE_PUZZLE)) = 100 \<and>
   map sq_id (grid (gameState (fst (selectSquare SAMPLE_PUZZLE 2 sampleFirst ''cat-fruits-1''))))
     = filter (\<lambda>i. i \<noteq> ''cat-fruits-0'' \<and> i \<noteq> ''cat-fruits-1'')
         (map sq_id (grid (gameState sampleFirst))) @ [''cat-fruits-0'']"
proof -
  have cat: "categoryId apple = categoryId banana" by (simp add: apple_def banana_def)
  have ne: "''cat-fruits-0'' \<noteq> ''cat-fruits-1''" by simp
  from square_ids_distinct [OF wellFormed_sample reachable_sampleFirst,
      of "\<lambda>i. 7 * i + 3" 0 "''cat-fruits-0''" apple "''cat-fruits-1''" banana 2]
    sampleFirst_simps(1-3) cat ne
  show ?thesis by blast
qed






lemma attemptMerge_failure_status:
  "\<not> success (snd (attemptMerge puzzle now gs a b)) \<Longrightarrow>
   status (fst (attemptMerge puzzle now gs a b)) = status gs"
proof (cases "getSquareById gs a = None \<or> getSquareById gs b = None")
  case True
  then show ?thesis by (simp add: attemptMerge_missing)
next
  case False
  then obtain A B where AB: "getSquareById gs a = Some A" "getSquareById gs b = Some B" by auto
  assume f: "\<not> success (snd (attemptMerge puzzle now gs a b))"
  show ?thesis
  proof (cases "categoryId A = categoryId B")
    case True
    with f show ?thesis by (simp add: attemptMerge_match [OF AB])
  next
    case False
    then show ?thesis by (simp add: attemptMerge_mismatch [OF AB])
  qed
qed




lemma wonInv_reachable:
  "reachable puzzle s \<Longrightarrow>
   status (gameState s) = Won \<longrightarrow> selectedSquareIds s = [] \<and> shakingSquareIds s = []"
proof (induction rule: reachable.induct)
  case (reach_init rnd now)
  then show ?case by (simp add: initialHookState_def initializeGameState_def)
next
  case (reach_select s now squareId)
  from reach_select.hyps have "selectionInv s" by (rule reachable_selectionInv)
  then show ?case
  proof (cases rule: selectSquare_cases [of s puzzle now squareId])
    case ignored
    with reach_select.IH show ?thesis by simp
  next
    case (deselect sq)
    then show ?thesis by simp
  next
    case (first sq)
    then show ?thesis by simp
  next
    case (second a A B)
    then show ?thesis using attemptMerge_failure_status [of puzzle now "gameState s" a squareId]
      by auto
  qed
next
  case (reach_reset s rnd now)
  then show ?case by (simp add: resetGame_def initializeGameState_def)
next
  case (reach_clearSelection s)
  then show ?case by (simp add: clearSelection_def)
next
  case (reach_clearShake s)
  then show ?case by (simp add: clearShake_def)
qed

text \<open>
  The game can be won: while the status is \<open>playing\<close> some unsolved square has a partner
  of its category, and merging the two shortens the grid.
\<close>

lemma same_id_same_square:
  assumes "distinct (map sq_id g)" "A \<in> set g" "B \<in> set g" "sq_id A = sq_id B"
  shows "A = B"
proof -
  have "find (\<lambda>sq. sq_id sq = sq_id A) g = Some A" using assms(1,2) by (rule find_id_unique)
  moreover have "find (\<lambda>sq. sq_id sq = sq_id B) g = Some B"
    using assms(1,3) by (rule find_id_unique)
  ultimately have "Some A = Some B" by (simp only: assms(4))
  then show ?thesis by simp
qed

lemma sum_list_const:
  "(\<forall>x \<in> set xs. f x = (k::nat)) \<Longrightarrow> sum_list (map f xs) = k * length xs"
  by (induction xs) auto

lemma all_solved_won:
  assumes inv: "gameInv gs" and all: "\<forall>sq \<in> set (grid gs). isSolved sq"
  shows "status gs = Won"
proof -
  let ?g = "grid gs"
  from inv have g: "gridInv ?g" and sol: "solvedInv gs" by (simp_all add: gameInv_def)
  from g have d: "distinct (map sq_id ?g)" by (simp add: gridInv_def)
  have ten: "\<forall>sq \<in> set ?g. length (items sq) = 10"
    using g all by (simp add: gridInv_def)
  have "itemTotal ?g = 10 * length ?g"
    unfolding itemTotal_def using ten by (rule sum_list_const)
  moreover have "itemTotal ?g = 100" using g by (simp add: gridInv_def)
  ultimately have len: "length ?g = 10" by simp
  have inj: "inj_on categoryId (set ?g)"
  proof (rule inj_onI)
    fix A B assume A: "A \<in> set ?g" and B: "B \<in> set ?g" and c: "categoryId A = categoryId B"
    show "A = B"
    proof (rule ccontr)
      assume "A \<noteq> B"
      then have "sq_id A \<noteq> sq_id B" using same_id_same_square [OF d A B] by blast
      then have "\<not> isSolved B" using c by (rule solved_same_category [OF g A B])
      with all B show False by blast
    qed
  qed
  have dg: "distinct ?g" using d by (simp add: distinct_map)
  have "distinct (map categoryId ?g)" using dg inj by (simp add: distinct_map)
  then have "card (set (map categoryId ?g)) = length (map categoryId ?g)"
    by (rule distinct_card)
  then have "card (categoryId ` set ?g) = 10"
    using len by simp
  moreover have "{sq \<in> set ?g. isSolved sq} = set ?g" using all by blast
  then have "set (solvedCategoryIds gs) = categoryId ` set ?g"
    using sol by (simp add: solvedInv_def)
  moreover have "distinct (solvedCategoryIds gs)" using sol by (simp add: solvedInv_def)
  ultimately have "length (solvedCategoryIds gs) = 10"
    using distinct_card [of "solvedCategoryIds gs"] by simp
  then show ?thesis using sol by (simp add: solvedInv_def)
qed

lemma unsolved_has_partner:
  assumes g: "gridInv g" and A: "A \<in> set g" and u: "\<not> isSolved A"
  shows "\<exists>B \<in> set g. sq_id B \<noteq> sq_id A \<and> categoryId B = categoryId A"
proof -
  let ?f = "\<lambda>sq. if categoryId sq = categoryId A then length (items sq) else 0"
  from g have d: "distinct (map sq_id g)" by (simp add: gridInv_def)
  have tot: "sum_list (map ?f g) = 10"
    using g A by (simp add: gridInv_def categoryTotal_def)
  have split: "sum_list (map ?f g) = ?f A + sum_list (map ?f (remove1 A g))"
    using A by (rule sum_list_map_remove1)
  have "length (items A) \<noteq> 10" using g A u by (simp add: gridInv_def)
  moreover have "?f A = length (items A)" by simp
  ultimately have "sum_list (map ?f (remove1 A g)) \<noteq> 0"
    using tot split by linarith
  then have "\<not> (\<forall>n \<in> set (map ?f (remove1 A g)). n = 0)"
    by (simp only: sum_list_eq_0_iff simp_thms)
  then obtain n where "n \<in> set (map ?f (remove1 A g))" "n \<noteq> 0" by blast
  then obtain B where B: "B \<in> set (remove1 A g)" "?f B \<noteq> 0"
    by (auto simp only: set_map image_iff)
  have dg: "distinct g" using d by (simp add: distinct_map)
  from B(1) dg have Bg: "B \<in> set g" and ne: "B \<noteq> A" by simp_all
  from ne have "sq_id B \<noteq> sq_id A" using same_id_same_square [OF d Bg A] by blast
  moreover from B(2) have "categoryId B = categoryId A" by (simp split: if_splits)
  ultimately show ?thesis using Bg by blast
qed

lemma playing_can_merge:
  assumes wf: "wellFormed puzzle" and r: "reachable puzzle s"
    and st: "status (gameState s) = Playing"
  shows "\<exists>s'. reachable puzzle s' \<and>
     length (grid (gameState s')) < length (grid (gameState s))"
proof -
  let ?gs = "gameState s"
  from wf r have inv: "gameInv ?gs" by (rule reachable_gameInv)
  then have g: "gridInv (grid ?gs)" by (simp add: gameInv_def)
  then have d: "distinct (map sq_id (grid ?gs))" by (simp add: gridInv_def)
  have "\<not> (\<forall>sq \<in> set (grid ?gs). isSolved sq)"
    using all_solved_won [OF inv] st by auto
  then obtain A where A: "A \<in> set (grid ?gs)" "\<not> isSolved A" by blast
  from unsolved_has_partner [OF g A] obtain B where
    B: "B \<in> set (grid ?gs)" "sq_id B \<noteq> sq_id A" "categoryId B = categoryId A" by blast
  define s1 where "s1 = clearSelection s"
  define s2 where "s2 = fst (selectSquare puzzle 0 s1 (sq_id A))"
  define s3 where "s3 = fst (selectSquare puzzle 0 s2 (sq_id B))"
  have gs1: "gameState s1 = ?gs" and sel1: "selectedSquareIds s1 = []"
    by (simp_all add: s1_def clearSelection_def)
  have getA: "getSquareById ?gs (sq_id A) = Some A"
    unfolding getSquareById_def using d A(1) by (rule find_id_unique)
  have getB: "getSquareById ?gs (sq_id B) = Some B"
    unfolding getSquareById_def using d B(1) by (rule find_id_unique)
  have st1: "status (gameState s1) = Playing" by (simp only: gs1 st)
  have getA1: "getSquareById (gameState s1) (sq_id A) = Some A" by (simp only: gs1 getA)
  have "selectSquare puzzle 0 s1 (sq_id A)
     = (s1\<lparr>selectedSquareIds := [sq_id A], lastMergeResult := None,
          shakingSquareIds := []\<rparr>, None)"
    by (rule selectSquare_first [OF st1 getA1 A(2)]) (simp_all add: sel1)
  then have s2: "s2 = s1\<lparr>selectedSquareIds := [sq_id A], lastMergeResult := None,
      shakingSquareIds := []\<rparr>"
    by (simp add: s2_def)
  have r1: "reachable puzzle s1" unfolding s1_def using r by (rule reach_clearSelection)
  have r2: "reachable puzzle s2" unfolding s2_def using r1 by (rule reach_select)
  have r3: "reachable puzzle s3" unfolding s3_def using r2 by (rule reach_select)
  have gs2: "gameState s2 = ?gs" by (simp add: s2 gs1)
  have sel2: "selectedSquareIds s2 = [sq_id A]" by (simp add: s2)
  have getA2: "getSquareById (gameState s2) (sq_id A) = Some A" by (simp only: gs2 getA)
  have getB2: "getSquareById (gameState s2) (sq_id B) = Some B" by (simp only: gs2 getB)
  note m = second_select_same_category [OF wf r2 sel2 getA2 getB2 B(2) [symmetric] B(3) [symmetric]]
  have "gameState s3 = mergedState 0 (gameState s2) A B"
    by (simp add: s3_def m(1) [of 0])
  then have "grid (gameState s3) = remove1 B (remove1 A (grid (gameState s2))) @ [mergedOf A B]"
    by (simp only: m(2))
  then have g3: "length (grid (gameState s3)) = length (remove1 B (remove1 A (grid ?gs))) + 1"
    by (simp add: gs2)
  have l1: "length (remove1 A (grid ?gs)) + 1 = length (grid ?gs)"
    using A(1) length_pos_if_in_set [OF A(1)] by (simp add: length_remove1)
  have Br: "B \<in> set (remove1 A (grid ?gs))" using m(4) by (simp only: gs2)
  have l2: "length (remove1 B (remove1 A (grid ?gs))) + 1 = length (remove1 A (grid ?gs))"
    using Br length_pos_if_in_set [OF Br] by (simp add: length_remove1)
  have "length (grid (gameState s3)) < length (grid ?gs)" using g3 l1 l2 by linarith
  with r3 show ?thesis by blast
qed

lemma winnable:
  assumes wf: "wellFormed puzzle"
  shows "reachable puzzle s \<Longrightarrow> \<exists>s'. reachable puzzle s' \<and> status (gameState s') = Won"
proof (induction "length (grid (gameState s))" arbitrary: s rule: less_induct)
  case less
  show ?case
  proof (cases "status (gameState s)")
    case Won
    with less.prems show ?thesis by blast
  next
    case Playing
    from playing_can_merge [OF wf less.prems Playing] obtain s1 where
      "reachable puzzle s1" "length (grid (gameState s1)) < length (grid (gameState s))"
      by blast
    from less.hyps [OF this(2) this(1)] show ?thesis .
  qed
qed

text \<open>
  Claim C4. In every reachable state of a well-formed puzzle the solved category ids are
  pairwise distinct, the status is \<open>won\<close> iff there are 10 of them, and this holds iff
  \<open>endTime\<close> is set. Once the status is \<open>won\<close>, \<^verbatim>\<open>selectSquare\<close> and \<^verbatim>\<open>clearShake\<close>
  return the hook state as it was, and \<^verbatim>\<open>clearSelection\<close> leaves the game state and the
  (empty) selection as they were: all it can change is the marker of the last merge
  result, which is no part of the game state.
\<close>

theorem won_iff_all_solved:
  assumes "wellFormed puzzle" and "reachable puzzle s"
  shows "distinct (solvedCategoryIds (gameState s)) \<and>
    (status (gameState s) = Won \<longleftrightarrow> length (solvedCategoryIds (gameState s)) = 10) \<and>
    (length (solvedCategoryIds (gameState s)) = 10 \<longleftrightarrow> endTime (gameState s) \<noteq> None) \<and>
    (status (gameState s) = Won \<longrightarrow>
       selectSquare puzzle now s squareId = (s, None) \<and>
       clearShake s = s \<and>
       clearSelection s = s\<lparr>lastMergeResult := None\<rparr> \<and>
       gameState (clearSelection s) = gameState s \<and>
       selectedSquareIds (clearSelection s) = selectedSquareIds s)"
proof -
  from reachable_gameInv [OF assms] have sol: "solvedInv (gameState s)"
    by (simp add: gameInv_def)
  have "selectSquare puzzle now s squareId = (s, None) \<and> clearShake s = s \<and>
       clearSelection s = s\<lparr>lastMergeResult := None\<rparr> \<and>
       gameState (clearSelection s) = gameState s \<and>
       selectedSquareIds (clearSelection s) = selectedSquareIds s"
    if won: "status (gameState s) = Won"
  proof -
    from wonInv_reachable [OF assms(2)] won
    have e: "selectedSquareIds s = []" "shakingSquareIds s = []" by simp_all
    have "selectSquare puzzle now s squareId = (s, None)"
      using won by (simp add: selectSquare_def)
    moreover have "clearShake s = s" using e by (simp add: clearShake_def)
    moreover have "clearSelection s = s\<lparr>lastMergeResult := None\<rparr>"
      using e by (simp add: clearSelection_def)
    ultimately show ?thesis using e by (simp add: clearSelection_def)
  qed
  with sol show ?thesis unfolding solvedInv_def by blast
qed

theorem won_iff_all_solved_witness:
  "\<exists>s. reachable SAMPLE_PUZZLE s \<and> status (gameState s) = Won \<and>
     length (solvedCategoryIds (gameState s)) = 10 \<and>
     distinct (solvedCategoryIds (gameState s)) \<and> endTime (gameState s) \<noteq> None \<and>
     selectSquare SAMPLE_PUZZLE 7 s ''cat-fruits-0'' = (s, None) \<and>
     clearShake s = s \<and> gameState (clearSelection s) = gameState s"
proof -
  from winnable [OF wellFormed_sample reachable_sampleStart] obtain s where
    s: "reachable SAMPLE_PUZZLE s" "status (gameState s) = Won" by blast
  from won_iff_all_solved [OF wellFormed_sample s(1), of 7 "''cat-fruits-0''"] s
  show ?thesis by blast
qed










lemma set_sortBySizeDesc: "set (sortBySizeDesc sqs) = set sqs"
  by (simp add: sortBySizeDesc_def)

lemma pack_loop_rows_ok:
  assumes "\<forall>sq \<in> set xs. length (items sq) \<le> 10"
    and "\<forall>row \<in> set rows. rowOk row"
    and "ct = itemTotal cs" and "ct \<le> 10"
    and "pack_loop xs rows cs ct = (rows', cs', ct')"
  shows "(\<forall>row \<in> set rows'. rowOk row) \<and> ct' = itemTotal cs' \<and> ct' \<le> 10"
  using assms
proof (induction xs arbitrary: rows cs ct)
  case Nil
  then show ?case by auto
next
  case (Cons square rest)
  let ?n = "length (items square)"
  from Cons.prems(1) have n: "?n \<le> 10" and rest: "\<forall>sq \<in> set rest. length (items sq) \<le> 10"
    by simp_all
  show ?case
  proof (cases "(ct + ?n > MAX_ITEMS_PER_ROW \<or> ct \<ge> TARGET_ITEMS_PER_ROW) \<and> length cs > 0")
    case True
    then have run: "pack_loop rest (rows @ [\<lparr>squares = cs, totalItems = ct\<rparr>]) [square] ?n
        = (rows', cs', ct')"
      using Cons.prems(5) by (simp add: Let_def)
    have "rowOk \<lparr>squares = cs, totalItems = ct\<rparr>"
      using True Cons.prems(3,4) by (simp add: rowOk_def)
    then have rows: "\<forall>row \<in> set (rows @ [\<lparr>squares = cs, totalItems = ct\<rparr>]). rowOk row"
      using Cons.prems(2) by simp
    have one: "?n = itemTotal [square]" by (simp add: itemTotal_def)
    show ?thesis by (rule Cons.IH [OF rest rows one n run])
  next
    case False
    then have run: "pack_loop rest rows (cs @ [square]) (ct + ?n) = (rows', cs', ct')"
      using Cons.prems(5) by (auto simp: Let_def)
    have tot: "ct + ?n = itemTotal (cs @ [square])"
      using Cons.prems(3) by (simp add: itemTotal_def)
    have le: "ct + ?n \<le> 10"
    proof (cases "cs = []")
      case True
      with Cons.prems(3) have "ct = 0" by (simp add: itemTotal_def)
      with n show ?thesis by simp
    next
      case False
      with \<open>\<not> ((ct + ?n > MAX_ITEMS_PER_ROW \<or> ct \<ge> TARGET_ITEMS_PER_ROW) \<and> length cs > 0)\<close>
      show ?thesis by (simp add: MAX_ITEMS_PER_ROW_def)
    qed
    show ?thesis by (rule Cons.IH [OF rest Cons.prems(2) tot le run])
  qed
qed

text \<open>
  Claim C6. When every square of the input holds at most 10 items, every row that
  \<^verbatim>\<open>packIntoRows\<close> emits holds at least one square, its \<open>totalItems\<close> is the sum of the
  item counts of its squares, and its \<open>totalItems\<close> is at most 10.
\<close>

theorem packIntoRows_rows_within_ceiling:
  assumes "\<forall>sq \<in> set sqs. length (items sq) \<le> 10"
  shows "\<forall>row \<in> set (packIntoRows sqs).
     squares row \<noteq> [] \<and>
     totalItems row = sum_list (map (\<lambda>sq. length (items sq)) (squares row)) \<and>
     totalItems row \<le> 10"
proof (cases "sqs = []")
  case True
  then show ?thesis by (simp add: packIntoRows_def)
next
  case False
  obtain rows cs ct where run: "pack_loop (sortBySizeDesc sqs) [] [] 0 = (rows, cs, ct)"
    by (metis prod_cases3)
  have srt: "\<forall>sq \<in> set (sortBySizeDesc sqs). length (items sq) \<le> 10"
    using assms by (simp add: set_sortBySizeDesc)
  have "(\<forall>row \<in> set rows. rowOk row) \<and> ct = itemTotal cs \<and> ct \<le> 10"
    by (rule pack_loop_rows_ok [OF srt _ _ _ run]) (simp_all add: itemTotal_def)
  then have "\<forall>row \<in> set (packIntoRows sqs). rowOk row"
    using False run by (auto simp: packIntoRows_def rowOk_def)
  then show ?thesis by (auto simp: rowOk_def itemTotal_def)
qed

lemma nineAndNine_rows:
  "map (\<lambda>row. (map sq_id (squares row), totalItems row)) (packIntoRows nineAndNine)
    = [([''cat-fruits-0''], 9),
       ([''cat-countries-0'', ''cat-countries-1'', ''cat-countries-2'', ''cat-countries-3'',
         ''cat-countries-4''], 5),
       ([''cat-countries-5'', ''cat-countries-6'', ''cat-countries-7'', ''cat-countries-8''], 4)]"
  by (simp add: packIntoRows_def nineAndNine_def sortBySizeDesc_def singleton_square_def
      countries_def fruits_def upt_rec string_of_index.simps digit_char_def Let_def
      MAX_ITEMS_PER_ROW_def TARGET_ITEMS_PER_ROW_def)

theorem packIntoRows_rows_within_ceiling_witness:
  "list_all (\<lambda>sq. length (items sq) \<le> 10) nineAndNine \<and>
   map (\<lambda>row. (map sq_id (squares row), totalItems row)) (packIntoRows nineAndNine)
    = [([''cat-fruits-0''], 9),
       ([''cat-countries-0'', ''cat-countries-1'', ''cat-countries-2'', ''cat-countries-3'',
         ''cat-countries-4''], 5),
       ([''cat-countries-5'', ''cat-countries-6'', ''cat-countries-7'', ''cat-countries-8''], 4)] \<and>
   list_all (\<lambda>row. totalItems row \<le> 10 \<and> squares row \<noteq> []) (packIntoRows nineAndNine)"
proof -
  have h: "\<forall>sq \<in> set nineAndNine. length (items sq) \<le> 10"
    by (auto simp: nineAndNine_def singleton_square_def fruits_def)
  from packIntoRows_rows_within_ceiling [OF h] nineAndNine_rows h show ?thesis
    unfolding list_all_iff by blast
qed

lemma read_rows_cong:
  "(\<forall>r \<in> set rows. h' ! fst r = h ! fst r) \<Longrightarrow> read_rows h' rows = read_rows h rows"
  by (auto simp: read_rows_def)

lemma read_rows_append: "read_rows h (rows @ rows') = read_rows h rows @ read_rows h rows'"
  by (simp add: read_rows_def)

lemma pack_loop_heap_refines:
  assumes "cs < length h" and "b \<le> cs" and "rows_in h cs rows"
    and "pack_loop_heap xs h rows cs ct = (h', rows', cs', ct')"
  shows "take b h' = take b h \<and> length h \<le> length h' \<and> cs' < length h' \<and>
         rows_in h' cs' rows' \<and>
         pack_loop xs (read_rows h rows) (h ! cs) ct = (read_rows h' rows', h' ! cs', ct')"
  using assms
proof (induction xs arbitrary: h rows cs ct)
  case Nil
  then show ?case by auto
next
  case (Cons square rest)
  let ?n = "length (items square)"
  let ?close = "(ct + ?n > MAX_ITEMS_PER_ROW \<or> ct \<ge> TARGET_ITEMS_PER_ROW) \<and> length (h ! cs) > 0"
  show ?case
  proof (cases ?close)
    case True
    let ?h1 = "h @ [[square]]"
    let ?rows1 = "rows @ [(cs, ct)]"
    from True Cons.prems(4) have run: "pack_loop_heap rest ?h1 ?rows1 (length h) ?n
        = (h', rows', cs', ct')"
      by (simp add: Let_def alloc_def)
    have 1: "length h < length ?h1" by simp
    have 2: "b \<le> length h" using Cons.prems(1,2) by simp
    have 3: "rows_in ?h1 (length h) ?rows1"
      using Cons.prems(1,3) by (auto simp: rows_in_def)
    note IH = Cons.IH [OF 1 2 3 run]
    have rd: "read_rows ?h1 ?rows1 = read_rows h rows @ [\<lparr>squares = h ! cs, totalItems = ct\<rparr>]"
    proof -
      have "read_rows ?h1 rows = read_rows h rows"
        by (rule read_rows_cong) (use Cons.prems(3) in \<open>auto simp: rows_in_def nth_append\<close>)
      moreover have "read_rows ?h1 [(cs, ct)] = [\<lparr>squares = h ! cs, totalItems = ct\<rparr>]"
        using Cons.prems(1) by (simp add: read_rows_def nth_append)
      ultimately show ?thesis by (simp add: read_rows_append)
    qed
    have step: "pack_loop (square # rest) (read_rows h rows) (h ! cs) ct
        = pack_loop rest (read_rows h rows @ [\<lparr>squares = h ! cs, totalItems = ct\<rparr>]) [square] ?n"
      using True by (simp add: Let_def)
    have "take b h' = take b h" using IH 2 by simp
    moreover have "length h \<le> length h'" using IH by simp
    moreover have "pack_loop (square # rest) (read_rows h rows) (h ! cs) ct
        = (read_rows h' rows', h' ! cs', ct')"
      using IH by (simp only: step rd [symmetric]) simp
    ultimately show ?thesis using IH by blast
  next
    case False
    let ?h1 = "h[cs := h ! cs @ [square]]"
    from False Cons.prems(4) have run: "pack_loop_heap rest ?h1 rows cs (ct + ?n)
        = (h', rows', cs', ct')"
      by (auto simp: Let_def)
    have 1: "cs < length ?h1" using Cons.prems(1) by simp
    have 3: "rows_in ?h1 cs rows" using Cons.prems(3) by (simp add: rows_in_def)
    note IH = Cons.IH [OF 1 Cons.prems(2) 3 run]
    have rd: "read_rows ?h1 rows = read_rows h rows"
      by (rule read_rows_cong) (use Cons.prems(3) in \<open>auto simp: rows_in_def\<close>)
    have cur: "?h1 ! cs = h ! cs @ [square]" using Cons.prems(1) by simp
    have step: "pack_loop (square # rest) (read_rows h rows) (h ! cs) ct
        = pack_loop rest (read_rows h rows) (h ! cs @ [square]) (ct + ?n)"
      using False by (auto simp: Let_def)
    have "take b h' = take b h" using IH Cons.prems(2) by (simp add: take_update_cancel)
    moreover have "length h \<le> length h'" using IH by simp
    moreover have "pack_loop (square # rest) (read_rows h rows) (h ! cs) ct
        = (read_rows h' rows', h' ! cs', ct')"
      using IH by (simp only: step rd cur) 
    ultimately show ?thesis using IH by blast
  qed
qed

lemma packIntoRows_heap_refines:
  assumes "sqs < length h" and "packIntoRows_heap h sqs = (h', rows)"
  shows "take (length h) h' = h \<and> read_rows h' rows = packIntoRows (h ! sqs) \<and>
         (\<forall>r \<in> set rows. fst r < length h')"
proof (cases "h ! sqs = []")
  case True
  with assms(2) show ?thesis
    by (auto simp: packIntoRows_heap_def packIntoRows_def read_rows_def)
next
  case False
  let ?xs = "h ! sqs"
  let ?h3 = "(h @ [?xs])[length h := sortBySizeDesc ?xs] @ [[]]"
  obtain h4 rs cs ct where run:
    "pack_loop_heap (sortBySizeDesc ?xs) ?h3 [] (Suc (length h)) 0 = (h4, rs, cs, ct)"
    by (metis prod_cases4)
  have res: "(h', rows) = (if length (h4 ! cs) > 0 then (h4, rs @ [(cs, ct)]) else (h4, rs))"
    using assms(2) False run
    by (simp add: packIntoRows_heap_def alloc_def Let_def nth_append)
  have 1: "Suc (length h) < length ?h3" by simp
  have 3: "rows_in ?h3 (Suc (length h)) []" by (simp add: rows_in_def)
  note L = pack_loop_heap_refines [OF 1 _ 3 run, of "length h"]
  have h3: "take (length h) ?h3 = h" by simp
  have cur: "?h3 ! Suc (length h) = []" by (simp add: nth_append)
  from L have a: "take (length h) h4 = h" and b: "cs < length h4" and c: "rows_in h4 cs rs"
    and d: "pack_loop (sortBySizeDesc ?xs) [] [] 0 = (read_rows h4 rs, h4 ! cs, ct)"
    using h3 cur by (simp_all add: read_rows_def)
  show ?thesis
  proof (cases "length (h4 ! cs) > 0")
    case True
    with res have e: "h' = h4" "rows = rs @ [(cs, ct)]" by simp_all
    have "read_rows h' rows = packIntoRows ?xs"
      using False d True by (simp add: e packIntoRows_def read_rows_append) (simp add: read_rows_def)
    moreover have "\<forall>r \<in> set rows. fst r < length h'"
      using b c by (auto simp: e rows_in_def)
    ultimately show ?thesis using a e by simp
  next
    case nil: False
    with res have e: "h' = h4" "rows = rs" by simp_all
    have "read_rows h' rows = packIntoRows ?xs"
      using False d nil by (simp add: e packIntoRows_def)
    moreover have "\<forall>r \<in> set rows. fst r < length h'"
      using c by (auto simp: e rows_in_def)
    ultimately show ?thesis using a e by simp
  qed
qed

text \<open>
  Claim C9. \<^verbatim>\<open>packIntoRows\<close> is a function of the contents of its input array alone. Run on
  a store, it leaves the input array, and every other array that existed before the call,
  as it was; the rows it returns, read from the store, are \<open>packIntoRows\<close> of the
  contents of the input array, the function of the list defined above. So a second call
  on the same array returns equal rows, and leaves the rows of the first call as they
  were. The empty input yields no rows.
\<close>

theorem packIntoRows_pure:
  assumes "sqs < length h"
    and "packIntoRows_heap h sqs = (h', rows)"
    and "packIntoRows_heap h' sqs = (h'', rows')"
  shows "packIntoRows [] = [] \<and>
    h' ! sqs = h ! sqs \<and> take (length h) h' = h \<and>
    read_rows h' rows = packIntoRows (h ! sqs) \<and>
    read_rows h'' rows' = read_rows h' rows \<and>
    read_rows h'' rows = read_rows h' rows"
proof -
  note one = packIntoRows_heap_refines [OF assms(1,2)]
  then have t: "take (length h) h' = h" by simp
  have "length (take (length h) h') = length h" by (simp only: t)
  then have len: "length h \<le> length h'" by simp
  have same: "h' ! sqs = h ! sqs"
    using t assms(1) by (metis nth_take)
  have lt: "sqs < length h'" using assms(1) len by simp
  note two = packIntoRows_heap_refines [OF lt assms(3)]
  have "read_rows h'' rows' = read_rows h' rows" using one two same by simp
  moreover have "read_rows h'' rows = read_rows h' rows"
  proof (rule read_rows_cong, rule ballI)
    fix r assume "r \<in> set rows"
    with one have "fst r < length h'" by simp
    moreover from two have "take (length h') h'' = h'" by simp
    ultimately show "h'' ! fst r = h' ! fst r" by (metis nth_take)
  qed
  moreover have "packIntoRows [] = []" by (simp add: packIntoRows_def)
  ultimately show ?thesis using one same by simp
qed

lemma nineAndNine_heap_rows:
  "snd (packIntoRows_heap [nineAndNine] 0) = [(2, 9), (3, 5), (4, 4)]"
  by (simp add: packIntoRows_heap_def alloc_def nineAndNine_def sortBySizeDesc_def
      singleton_square_def countries_def fruits_def upt_rec string_of_index.simps digit_char_def
      Let_def MAX_ITEMS_PER_ROW_def TARGET_ITEMS_PER_ROW_def)

theorem packIntoRows_pure_witness:
  "fst (packIntoRows_heap [nineAndNine] 0) ! 0 = nineAndNine \<and>
   snd (packIntoRows_heap [nineAndNine] 0) = [(2, 9), (3, 5), (4, 4)] \<and>
   read_rows (fst (packIntoRows_heap [nineAndNine] 0)) (snd (packIntoRows_heap [nineAndNine] 0))
     = packIntoRows nineAndNine \<and>
   read_rows (fst (packIntoRows_heap (fst (packIntoRows_heap [nineAndNine] 0)) 0))
        (snd (packIntoRows_heap (fst (packIntoRows_heap [nineAndNine] 0)) 0))
     = packIntoRows nineAndNine"
proof -
  have 1: "(0::nat) < length [nineAndNine]" by simp
  have 2: "packIntoRows_heap [nineAndNine] 0
      = (fst (packIntoRows_heap [nineAndNine] 0), snd (packIntoRows_heap [nineAndNine] 0))"
    by simp
  have 3: "packIntoRows_heap (fst (packIntoRows_heap [nineAndNine] 0)) 0
      = (fst (packIntoRows_heap (fst (packIntoRows_heap [nineAndNine] 0)) 0),
         snd (packIntoRows_heap (fst (packIntoRows_heap [nineAndNine] 0)) 0))"
    by simp
  from packIntoRows_pure [OF 1 2 3] nineAndNine_heap_rows show ?thesis by simp
qed

end
